theory Spec2Isabelle
  imports Main "HOL-Library.Word"
begin

section \<open>The SimpleTimer class of src/SimpleTimer.cpp\<close>

text \<open>
  The class keeps one array per attribute, each of \<open>MAX_TIMERS\<close> entries, and a counter.
  An array is a list here; an index is checked before every access that the source does
  not guard itself, and an access outside the array is the fault \<open>OutOfBounds\<close>.

  \<open>unsigned long\<close> is the 32-bit type of the Arduino targets the file is written for, so
  a tick is a \<open>32 word\<close>. \<open>delays\<close> is declared \<open>long\<close>, but it is only ever
  compared with and added to an \<open>unsigned long\<close>, which converts it to \<open>unsigned long\<close>:
  it is kept as the 32-bit pattern. \<open>int\<close> values are HOL integers: the only arithmetic on
  them is \<open>numRuns[i]++\<close> under \<open>numRuns[i] < maxNumRuns[i]\<close>, \<open>numTimers++\<close> under
  \<open>numTimers < MAX_TIMERS\<close> and \<open>numTimers--\<close> under \<open>numTimers != 0\<close>.

  A \<open>timer_callback\<close> is a function pointer; it is modelled by its address, \<open>0\<close> being
  the null pointer.
\<close>

type_synonym timer_callback = nat

abbreviation MAX_TIMERS :: int where "MAX_TIMERS \<equiv> 10"
abbreviation RUN_FOREVER :: int where "RUN_FOREVER \<equiv> 0"
abbreviation RUN_ONCE :: int where "RUN_ONCE \<equiv> 1"
abbreviation DEFCALL_DONTRUN :: int where "DEFCALL_DONTRUN \<equiv> 0"
abbreviation DEFCALL_RUNONLY :: int where "DEFCALL_RUNONLY \<equiv> 1"
abbreviation DEFCALL_RUNANDDEL :: int where "DEFCALL_RUNANDDEL \<equiv> 2"

record SimpleTimer =
  prev_millis :: "32 word list"
  callbacks :: "timer_callback list"
  delays :: "32 word list"
  maxNumRuns :: "int list"
  numRuns :: "int list"
  enabled :: "bool list"
  toBeCalled :: "int list"
  numTimers :: int

datatype fault = OutOfBounds | NullCall

text \<open>
  The constructor. \<open>raw\<close> is the storage the object is built in: the constructor leaves
  \<open>delays\<close>, \<open>maxNumRuns\<close> and \<open>toBeCalled\<close> as it finds them. \<open>current_millis\<close> is the
  value \<open>elapsed()\<close> returns, here and in every function below that reads the clock.
\<close>

definition ctor_slot :: "32 word \<Rightarrow> nat \<Rightarrow> SimpleTimer \<Rightarrow> SimpleTimer" where
  "ctor_slot current_millis i s =
     s\<lparr>enabled := (enabled s)[i := False],
       callbacks := (callbacks s)[i := 0],
       prev_millis := (prev_millis s)[i := current_millis],
       numRuns := (numRuns s)[i := 0]\<rparr>"

definition SimpleTimer_ctor :: "32 word \<Rightarrow> SimpleTimer \<Rightarrow> SimpleTimer" where
  "SimpleTimer_ctor current_millis raw =
     (fold (ctor_slot current_millis) [0..<nat MAX_TIMERS] raw)\<lparr>numTimers := 0\<rparr>"

subsection \<open>Registration\<close>

definition findFirstFreeSlot :: "SimpleTimer \<Rightarrow> int" where
  "findFirstFreeSlot s =
     (if numTimers s \<ge> MAX_TIMERS then -1
      else case find (\<lambda>i. callbacks s ! i = 0) [0..<nat MAX_TIMERS] of
             Some i \<Rightarrow> int i
           | None \<Rightarrow> -1)"

definition setTimer ::
  "32 word \<Rightarrow> 32 word \<Rightarrow> timer_callback \<Rightarrow> int \<Rightarrow> SimpleTimer \<Rightarrow> SimpleTimer \<times> int" where
  "setTimer current_millis d f n s =
     (let freeTimer = findFirstFreeSlot s in
      if freeTimer < 0 then (s, -1)
      else if f = 0 then (s, -1)
      else (s\<lparr>delays := (delays s)[nat freeTimer := d],
              callbacks := (callbacks s)[nat freeTimer := f],
              maxNumRuns := (maxNumRuns s)[nat freeTimer := n],
              enabled := (enabled s)[nat freeTimer := True],
              prev_millis := (prev_millis s)[nat freeTimer := current_millis],
              numTimers := numTimers s + 1\<rparr>, freeTimer))"

definition setInterval ::
  "32 word \<Rightarrow> 32 word \<Rightarrow> timer_callback \<Rightarrow> SimpleTimer \<Rightarrow> SimpleTimer \<times> int" where
  "setInterval current_millis d f s = setTimer current_millis d f RUN_FOREVER s"

definition setTimeout ::
  "32 word \<Rightarrow> 32 word \<Rightarrow> timer_callback \<Rightarrow> SimpleTimer \<Rightarrow> SimpleTimer \<times> int" where
  "setTimeout current_millis d f s = setTimer current_millis d f RUN_ONCE s"

subsection \<open>Index-addressed operations\<close>

text \<open>
  Each of them tests \<open>numTimer >= MAX_TIMERS\<close> only, so a negative index reaches the
  array access.
\<close>

definition deleteTimer :: "int \<Rightarrow> SimpleTimer \<Rightarrow> fault + SimpleTimer" where
  "deleteTimer timerId s =
     (if timerId \<ge> MAX_TIMERS then Inr s
      else if numTimers s = 0 then Inr s
      else if timerId < 0 then Inl OutOfBounds
      else if callbacks s ! nat timerId \<noteq> 0 then
        Inr (s\<lparr>callbacks := (callbacks s)[nat timerId := 0],
               enabled := (enabled s)[nat timerId := False],
               toBeCalled := (toBeCalled s)[nat timerId := DEFCALL_DONTRUN],
               delays := (delays s)[nat timerId := 0],
               numRuns := (numRuns s)[nat timerId := 0],
               numTimers := numTimers s - 1\<rparr>)
      else Inr s)"

definition restartTimer :: "32 word \<Rightarrow> int \<Rightarrow> SimpleTimer \<Rightarrow> fault + SimpleTimer" where
  "restartTimer current_millis numTimer s =
     (if numTimer \<ge> MAX_TIMERS then Inr s
      else if numTimer < 0 then Inl OutOfBounds
      else Inr (s\<lparr>prev_millis := (prev_millis s)[nat numTimer := current_millis]\<rparr>))"

definition isEnabled :: "int \<Rightarrow> SimpleTimer \<Rightarrow> fault + bool" where
  "isEnabled numTimer s =
     (if numTimer \<ge> MAX_TIMERS then Inr False
      else if numTimer < 0 then Inl OutOfBounds
      else Inr (enabled s ! nat numTimer))"

definition enable :: "int \<Rightarrow> SimpleTimer \<Rightarrow> fault + SimpleTimer" where
  "enable numTimer s =
     (if numTimer \<ge> MAX_TIMERS then Inr s
      else if numTimer < 0 then Inl OutOfBounds
      else Inr (s\<lparr>enabled := (enabled s)[nat numTimer := True]\<rparr>))"

definition disable :: "int \<Rightarrow> SimpleTimer \<Rightarrow> fault + SimpleTimer" where
  "disable numTimer s =
     (if numTimer \<ge> MAX_TIMERS then Inr s
      else if numTimer < 0 then Inl OutOfBounds
      else Inr (s\<lparr>enabled := (enabled s)[nat numTimer := False]\<rparr>))"

definition toggle :: "int \<Rightarrow> SimpleTimer \<Rightarrow> fault + SimpleTimer" where
  "toggle numTimer s =
     (if numTimer \<ge> MAX_TIMERS then Inr s
      else if numTimer < 0 then Inl OutOfBounds
      else Inr (s\<lparr>enabled := (enabled s)[nat numTimer := \<not> enabled s ! nat numTimer]\<rparr>))"

definition getNumTimers :: "SimpleTimer \<Rightarrow> int" where
  "getNumTimers s = numTimers s"

definition getNumAvailableTimers :: "SimpleTimer \<Rightarrow> int" where
  "getNumAvailableTimers s = MAX_TIMERS - numTimers s"

subsection \<open>Callbacks\<close>

text \<open>
  A callback is code of the host program. What matters of it here is the sequence of
  calls it makes on the timer object it was registered with; the callbacks of the demo
  (\<open>toggle_red\<close>, \<open>turn_on\<close>, \<open>toggle_green\<close>) make none. A program gives every function
  address its calls. The clock is read once per \<open>run()\<close>; a callback's own calls are
  given the same reading.
\<close>

datatype api_call =
    CallSetTimer "32 word" timer_callback int
  | CallSetInterval "32 word" timer_callback
  | CallSetTimeout "32 word" timer_callback
  | CallDeleteTimer int
  | CallRestartTimer int
  | CallEnable int
  | CallDisable int
  | CallToggle int

type_synonym program = "timer_callback \<Rightarrow> api_call list"

fun exec_call :: "32 word \<Rightarrow> api_call \<Rightarrow> SimpleTimer \<Rightarrow> fault + SimpleTimer" where
  "exec_call now (CallSetTimer d f n) s = Inr (fst (setTimer now d f n s))"
| "exec_call now (CallSetInterval d f) s = Inr (fst (setInterval now d f s))"
| "exec_call now (CallSetTimeout d f) s = Inr (fst (setTimeout now d f s))"
| "exec_call now (CallDeleteTimer i) s = deleteTimer i s"
| "exec_call now (CallRestartTimer i) s = restartTimer now i s"
| "exec_call now (CallEnable i) s = enable i s"
| "exec_call now (CallDisable i) s = disable i s"
| "exec_call now (CallToggle i) s = toggle i s"

fun exec_calls :: "32 word \<Rightarrow> api_call list \<Rightarrow> SimpleTimer \<Rightarrow> fault + SimpleTimer" where
  "exec_calls now [] s = Inr s"
| "exec_calls now (c # cs) s =
     (case exec_call now c s of Inl e \<Rightarrow> Inl e | Inr s' \<Rightarrow> exec_calls now cs s')"

text \<open>\<open>(*callbacks[i])()\<close>: calling through a null pointer is a fault.\<close>

definition invoke :: "program \<Rightarrow> 32 word \<Rightarrow> nat \<Rightarrow> SimpleTimer \<Rightarrow> fault + SimpleTimer" where
  "invoke prog now i s =
     (if callbacks s ! i = 0 then Inl NullCall
      else exec_calls now (prog (callbacks s ! i)) s)"

subsection \<open>run()\<close>

text \<open>The test of line 124, an unsigned comparison of an unsigned difference.\<close>

definition is_due :: "32 word \<Rightarrow> SimpleTimer \<Rightarrow> nat \<Rightarrow> bool" where
  "is_due current_millis s i \<longleftrightarrow> current_millis - prev_millis s ! i \<ge> delays s ! i"

text \<open>The body of the first loop, for slot \<open>i\<close>.\<close>

definition phase1_slot :: "32 word \<Rightarrow> nat \<Rightarrow> SimpleTimer \<Rightarrow> SimpleTimer" where
  "phase1_slot current_millis i s0 =
     (let s1 = s0\<lparr>toBeCalled := (toBeCalled s0)[i := DEFCALL_DONTRUN]\<rparr> in
      if callbacks s1 ! i \<noteq> 0 then
        if is_due current_millis s1 i then
          let s2 = s1\<lparr>prev_millis := (prev_millis s1)[i := prev_millis s1 ! i + delays s1 ! i]\<rparr> in
          if enabled s2 ! i then
            if maxNumRuns s2 ! i = RUN_FOREVER then
              s2\<lparr>toBeCalled := (toBeCalled s2)[i := DEFCALL_RUNONLY]\<rparr>
            else if numRuns s2 ! i < maxNumRuns s2 ! i then
              let s3 = s2\<lparr>toBeCalled := (toBeCalled s2)[i := DEFCALL_RUNONLY],
                         numRuns := (numRuns s2)[i := numRuns s2 ! i + 1]\<rparr> in
              if numRuns s3 ! i \<ge> maxNumRuns s3 ! i then
                s3\<lparr>toBeCalled := (toBeCalled s3)[i := DEFCALL_RUNANDDEL]\<rparr>
              else s3
            else s2
          else s2
        else s1
      else s1)"

definition phase1 :: "32 word \<Rightarrow> SimpleTimer \<Rightarrow> SimpleTimer" where
  "phase1 current_millis s = fold (phase1_slot current_millis) [0..<nat MAX_TIMERS] s"

text \<open>
  The body of the second loop, for slot \<open>i\<close>. The second component is the record of
  what the loop did so far: the slot whose callback was invoked, with the deferred-call
  constant that made it so.
\<close>

type_synonym fire_log = "(nat \<times> int) list"

definition phase2_slot ::
  "program \<Rightarrow> 32 word \<Rightarrow> nat \<Rightarrow> SimpleTimer \<times> fire_log \<Rightarrow> fault + SimpleTimer \<times> fire_log" where
  "phase2_slot prog now i sl =
     (let s = fst sl; lg = snd sl in
      if toBeCalled s ! i = DEFCALL_DONTRUN then Inr (s, lg)
      else if toBeCalled s ! i = DEFCALL_RUNONLY then
        (case invoke prog now i s of
           Inl e \<Rightarrow> Inl e
         | Inr s' \<Rightarrow> Inr (s', lg @ [(i, DEFCALL_RUNONLY)]))
      else if toBeCalled s ! i = DEFCALL_RUNANDDEL then
        (case invoke prog now i s of
           Inl e \<Rightarrow> Inl e
         | Inr s' \<Rightarrow>
             (case deleteTimer (int i) s' of
                Inl e \<Rightarrow> Inl e
              | Inr s'' \<Rightarrow> Inr (s'', lg @ [(i, DEFCALL_RUNANDDEL)])))
      else Inr (s, lg))"

fun phase2_loop ::
  "program \<Rightarrow> 32 word \<Rightarrow> nat list \<Rightarrow> SimpleTimer \<times> fire_log \<Rightarrow> fault + SimpleTimer \<times> fire_log" where
  "phase2_loop prog now [] sl = Inr sl"
| "phase2_loop prog now (i # is) sl =
     (case phase2_slot prog now i sl of
        Inl e \<Rightarrow> Inl e
      | Inr sl' \<Rightarrow> phase2_loop prog now is sl')"

definition phase2 :: "program \<Rightarrow> 32 word \<Rightarrow> SimpleTimer \<Rightarrow> fault + SimpleTimer \<times> fire_log" where
  "phase2 prog now s = phase2_loop prog now [0..<nat MAX_TIMERS] (s, [])"

definition run :: "program \<Rightarrow> 32 word \<Rightarrow> SimpleTimer \<Rightarrow> fault + SimpleTimer \<times> fire_log" where
  "run prog current_millis s = phase2 prog current_millis (phase1 current_millis s)"

text \<open>The slots whose callback a \<open>run()\<close> invoked, in order.\<close>

definition fired :: "fire_log \<Rightarrow> nat list" where
  "fired lg = map fst lg"

text \<open>A sequence of \<open>run()\<close> calls, at the given clock readings.\<close>

fun runs :: "program \<Rightarrow> 32 word list \<Rightarrow> SimpleTimer \<times> fire_log \<Rightarrow> fault + SimpleTimer \<times> fire_log" where
  "runs prog [] sl = Inr sl"
| "runs prog (t # ts) sl =
     (case run prog t (fst sl) of
        Inl e \<Rightarrow> Inl e
      | Inr sl' \<Rightarrow> runs prog ts (fst sl', snd sl @ snd sl'))"

subsection \<open>Well-formed objects\<close>

text \<open>The arrays have \<open>MAX_TIMERS\<close> entries.\<close>

definition wf_timer :: "SimpleTimer \<Rightarrow> bool" where
  "wf_timer s \<longleftrightarrow>
     length (prev_millis s) = nat MAX_TIMERS \<and> length (callbacks s) = nat MAX_TIMERS \<and>
     length (delays s) = nat MAX_TIMERS \<and> length (maxNumRuns s) = nat MAX_TIMERS \<and>
     length (numRuns s) = nat MAX_TIMERS \<and> length (enabled s) = nat MAX_TIMERS \<and>
     length (toBeCalled s) = nat MAX_TIMERS"

text \<open>The slots in use: those with a callback.\<close>

definition in_use :: "SimpleTimer \<Rightarrow> nat list" where
  "in_use s = filter (\<lambda>i. callbacks s ! i \<noteq> 0) [0..<nat MAX_TIMERS]"

text \<open>
  The invariant of the counter: \<open>numTimers\<close> is the number of slots in use, and at most
  \<open>MAX_TIMERS\<close>.
\<close>

definition count_inv :: "SimpleTimer \<Rightarrow> bool" where
  "count_inv s \<longleftrightarrow> numTimers s = int (length (in_use s)) \<and> numTimers s \<le> MAX_TIMERS"

text \<open>
  \<open>setTimer\<close> does not write \<open>numRuns\<close>: it relies on the constructor and on
  \<open>deleteTimer\<close> having left \<open>0\<close> in every free slot.
\<close>

definition free_runs_zero :: "SimpleTimer \<Rightarrow> bool" where
  "free_runs_zero s \<longleftrightarrow>
     (\<forall>i \<in> set [0..<nat MAX_TIMERS]. callbacks s ! i = 0 \<longrightarrow> numRuns s ! i = 0)"

text \<open>A call whose index argument is not negative; a program all of whose calls are so.\<close>

fun call_ok :: "api_call \<Rightarrow> bool" where
  "call_ok (CallDeleteTimer i) \<longleftrightarrow> 0 \<le> i"
| "call_ok (CallRestartTimer i) \<longleftrightarrow> 0 \<le> i"
| "call_ok (CallEnable i) \<longleftrightarrow> 0 \<le> i"
| "call_ok (CallDisable i) \<longleftrightarrow> 0 \<le> i"
| "call_ok (CallToggle i) \<longleftrightarrow> 0 \<le> i"
| "call_ok _ \<longleftrightarrow> True"

definition prog_ok :: "program \<Rightarrow> bool" where
  "prog_ok prog \<longleftrightarrow> (\<forall>f. list_all call_ok (prog f))"

text \<open>A program whose callbacks leave the timer object alone, as the demo's do.\<close>

definition inert :: "program \<Rightarrow> bool" where
  "inert prog \<longleftrightarrow> (\<forall>f. prog f = [])"

definition no_calls :: program where
  "no_calls f = []"

subsection \<open>Slots, decisions and reachable objects\<close>

text \<open>The entries of slot \<open>i\<close>, one per array.\<close>

definition slot ::
  "SimpleTimer \<Rightarrow> nat \<Rightarrow> 32 word \<times> timer_callback \<times> 32 word \<times> int \<times> int \<times> bool \<times> int" where
  "slot s i = (prev_millis s ! i, callbacks s ! i, delays s ! i, maxNumRuns s ! i,
               numRuns s ! i, enabled s ! i, toBeCalled s ! i)"

text \<open>
  The action the first loop decides for slot \<open>i\<close>: what it leaves in \<open>toBeCalled[i]\<close>.
\<close>

definition decided :: "32 word \<Rightarrow> SimpleTimer \<Rightarrow> nat \<Rightarrow> int" where
  "decided current_millis s i = toBeCalled (phase1 current_millis s) ! i"

text \<open>
  After the first loop of \<open>run()\<close>, and from then on, a slot marked for a call has a
  callback.
\<close>

definition armed :: "SimpleTimer \<Rightarrow> bool" where
  "armed s \<longleftrightarrow>
     (\<forall>i \<in> set [0..<nat MAX_TIMERS]. toBeCalled s ! i \<noteq> DEFCALL_DONTRUN \<longrightarrow> callbacks s ! i \<noteq> 0)"

text \<open>A program none of whose callbacks deletes timer \<open>j\<close>.\<close>

definition never_deletes :: "program \<Rightarrow> nat \<Rightarrow> bool" where
  "never_deletes prog j \<longleftrightarrow> (\<forall>f. CallDeleteTimer (int j) \<notin> set (prog f))"

text \<open>
  The number of \<open>run()\<close> calls of a sequence made \<open>n\<close> periods \<open>p\<close> or more after tick
  \<open>t0\<close>, the ticks since \<open>t0\<close> being counted modulo \<open>2^32\<close>.
\<close>

definition late_polls :: "nat \<Rightarrow> 32 word \<Rightarrow> 32 word \<Rightarrow> 32 word list \<Rightarrow> nat" where
  "late_polls n p t0 ts = length (filter (\<lambda>t. n * unat p \<le> unat (t - t0)) ts)"

text \<open>
  The objects a host program can hold: built by the constructor, then used through calls
  and \<open>run()\<close>, as long as none of them faults.
\<close>

inductive reachable :: "program \<Rightarrow> SimpleTimer \<Rightarrow> bool" for prog :: program where
  built: "wf_timer raw \<Longrightarrow> reachable prog (SimpleTimer_ctor now raw)"
| called: "reachable prog s \<Longrightarrow> exec_call now c s = Inr s' \<Longrightarrow> reachable prog s'"
| polled: "reachable prog s \<Longrightarrow> run prog now s = Inr (s', lg) \<Longrightarrow> reachable prog s'"

text \<open>
  A sequence of \<open>setTimer\<close> calls, each with its clock reading, period, callback and run
  limit; the values they return are collected in order.
\<close>

type_synonym registration = "32 word \<times> 32 word \<times> timer_callback \<times> int"

fun reg_callback :: "registration \<Rightarrow> timer_callback" where
  "reg_callback (t, d, f, n) = f"

fun setTimers :: "registration list \<Rightarrow> SimpleTimer \<Rightarrow> SimpleTimer \<times> int list" where
  "setTimers [] s = (s, [])"
| "setTimers ((t, d, f, n) # regs) s =
     (case setTimer t d f n s of
        (s1, r) \<Rightarrow> (case setTimers regs s1 of (s2, rs) \<Rightarrow> (s2, r # rs)))"


text \<open>
  Lines 124 and 128 for one slot in use, over a sequence of \<open>run()\<close> calls made at the
  ticks \<open>ts\<close>: the number of calls in which the test
  \<open>current_millis - prev_millis[i] >= delays[i]\<close> holds, for a slot of period \<open>p\<close> whose
  baseline is \<open>prev\<close> at first and becomes \<open>prev_millis[i] += delays[i]\<close> in each call
  in which the test holds.
\<close>

fun due_polls :: "32 word \<Rightarrow> 32 word \<Rightarrow> 32 word list \<Rightarrow> nat" where
  "due_polls p prev [] = 0"
| "due_polls p prev (t # ts) =
     (if p \<le> t - prev then Suc (due_polls p (prev + p) ts) else due_polls p prev ts)"

subsection \<open>Objects used as examples\<close>

text \<open>
  Zeroed storage, which is what the demo's global objects \<open>timer1\<close>, \<open>timer2\<close> and
  \<open>timer3\<close> are built in.
\<close>

definition raw0 :: SimpleTimer where
  "raw0 = \<lparr>prev_millis = [0, 0, 0, 0, 0, 0, 0, 0, 0, 0],
           callbacks = [0, 0, 0, 0, 0, 0, 0, 0, 0, 0],
           delays = [0, 0, 0, 0, 0, 0, 0, 0, 0, 0],
           maxNumRuns = [0, 0, 0, 0, 0, 0, 0, 0, 0, 0],
           numRuns = [0, 0, 0, 0, 0, 0, 0, 0, 0, 0],
           enabled = [False, False, False, False, False, False, False, False, False, False],
           toBeCalled = [0, 0, 0, 0, 0, 0, 0, 0, 0, 0],
           numTimers = 0\<rparr>"

text \<open>An object with all ten slots in use.\<close>

definition full10 :: SimpleTimer where
  "full10 = \<lparr>prev_millis = [0, 0, 0, 0, 0, 0, 0, 0, 0, 0],
           callbacks = [1, 2, 3, 4, 5, 6, 7, 8, 9, 10],
           delays = [100, 100, 100, 100, 100, 100, 100, 100, 100, 100],
           maxNumRuns = [0, 0, 0, 0, 0, 0, 0, 0, 0, 0],
           numRuns = [0, 0, 0, 0, 0, 0, 0, 0, 0, 0],
           enabled = [True, True, True, True, True, True, True, True, True, True],
           toBeCalled = [0, 0, 0, 0, 0, 0, 0, 0, 0, 0],
           numTimers = 10\<rparr>"

text \<open>
  Two timers registered at tick 0 on a new object, both with period 10 and no run limit;
  and a program in which the callback at address 1 deletes timer 1.
\<close>

definition two_timers :: SimpleTimer where
  "two_timers = fst (setTimer 0 10 2 0 (fst (setTimer 0 10 1 0 (SimpleTimer_ctor 0 raw0))))"


text \<open>The same, with a callback that disables timer 1 and restarts it instead.\<close>

definition prog_reconf1 :: program where
  "prog_reconf1 f = (if f = 1 then [CallDisable 1, CallRestartTimer 1] else [])"

text \<open>The two timers, the second one disabled.\<close>

definition one_disabled :: SimpleTimer where
  "one_disabled = projr (disable 1 two_timers)"

text \<open>
  A timer with period 500 and no run limit, registered \<open>0x100\<close> ticks before the counter
  wraps.
\<close>

definition wrap_timer :: SimpleTimer where
  "wrap_timer = fst (setTimer 0xFFFFFF00 500 7 0 (SimpleTimer_ctor 0 raw0))"

text \<open>A timer registered with \<open>setTimeout\<close> at tick 0 on a new object, with period 10.\<close>

definition one_shot :: SimpleTimer where
  "one_shot = fst (setTimeout 0 10 7 (SimpleTimer_ctor 0 raw0))"

text \<open>Ten registrations, with the callbacks at addresses 1 to 10.\<close>

definition ten_regs :: "registration list" where
  "ten_regs = map (\<lambda>k. (0, 100, Suc k, 0)) [0..<10]"

section \<open>Evaluation\<close>

lemma upt_MAX: "[0..<10] = [0, 1, 2, 3, 4, 5, 6, 7, 8, 9 :: nat]"
  by (simp add: upt_rec)

lemma ctor_raw0: "SimpleTimer_ctor 0 raw0 = raw0"
  by (simp add: SimpleTimer_ctor_def raw0_def upt_MAX ctor_slot_def)

section \<open>Registration and the slots in use\<close>

lemma findFirstFreeSlot_free:
  assumes "findFirstFreeSlot s = r" and "0 \<le> r"
  shows "r < MAX_TIMERS \<and> numTimers s < MAX_TIMERS \<and> callbacks s ! nat r = 0 \<and>
         (\<forall>j < nat r. callbacks s ! j \<noteq> 0)"
  using assms
  by (auto simp: findFirstFreeSlot_def find_Some_iff split: if_splits option.splits)

lemma findFirstFreeSlot_full:
  "(\<forall>i < 10. callbacks s ! i \<noteq> 0) \<Longrightarrow> findFirstFreeSlot s = -1"
  by (auto simp: findFirstFreeSlot_def find_None_iff find_Some_iff split: option.splits)

lemma findFirstFreeSlot_some:
  assumes "numTimers s < MAX_TIMERS" and "i < 10" and "callbacks s ! i = 0"
  shows "0 \<le> findFirstFreeSlot s"
  using assms
  by (auto simp: findFirstFreeSlot_def find_None_iff split: option.splits)

lemma length_in_use: "length (in_use s) = card {i. i < 10 \<and> callbacks s ! i \<noteq> 0}"
proof -
  have "{i. i < length [0..<10::nat] \<and> callbacks s ! ([0..<10] ! i) \<noteq> 0}
        = {i. i < 10 \<and> callbacks s ! i \<noteq> 0}"
    by auto
  then show ?thesis
    unfolding in_use_def by (simp add: length_filter_conv_card)
qed

lemma in_use_cong: "callbacks s' = callbacks s \<Longrightarrow> in_use s' = in_use s"
  by (simp add: in_use_def)

lemma length_in_use_le: "length (in_use s) \<le> 10"
proof -
  have "length (in_use s) \<le> length [0..<10::nat]"
    unfolding in_use_def by (simp only: nat_numeral length_filter_le)
  then show ?thesis by simp
qed

lemma in_use_add:
  assumes "k < 10" and "length (callbacks s) = 10" and "callbacks s ! k = 0" and "f \<noteq> 0"
    and "callbacks s' = (callbacks s)[k := f]"
  shows "length (in_use s') = Suc (length (in_use s))"
proof -
  have "{i. i < 10 \<and> callbacks s' ! i \<noteq> 0} = insert k {i. i < 10 \<and> callbacks s ! i \<noteq> 0}"
    using assms by (auto simp: nth_list_update)
  moreover have "k \<notin> {i. i < 10 \<and> callbacks s ! i \<noteq> 0}" using assms by simp
  moreover have "finite {i. i < (10::nat) \<and> callbacks s ! i \<noteq> 0}" by simp
  ultimately show ?thesis by (simp add: length_in_use)
qed

lemma in_use_remove:
  assumes "k < 10" and "length (callbacks s) = 10" and "callbacks s ! k \<noteq> 0"
    and "callbacks s' = (callbacks s)[k := 0]"
  shows "Suc (length (in_use s')) = length (in_use s)"
proof -
  have "{i. i < 10 \<and> callbacks s ! i \<noteq> 0} = insert k {i. i < 10 \<and> callbacks s' ! i \<noteq> 0}"
    using assms by (auto simp: nth_list_update)
  moreover have "k \<notin> {i. i < 10 \<and> callbacks s' ! i \<noteq> 0}" using assms by simp
  moreover have "finite {i. i < (10::nat) \<and> callbacks s' ! i \<noteq> 0}" by simp
  ultimately show ?thesis by (simp add: length_in_use)
qed

lemma in_use_pos: "i < 10 \<Longrightarrow> callbacks s ! i \<noteq> 0 \<Longrightarrow> 0 < length (in_use s)"
  by (auto simp: in_use_def filter_empty_conv intro!: bexI [of _ i])

section \<open>What the calls preserve\<close>

lemma wf_setTimer: "wf_timer s \<Longrightarrow> wf_timer (fst (setTimer now d f n s))"
  by (simp add: setTimer_def Let_def wf_timer_def)

lemma wf_deleteTimer: "wf_timer s \<Longrightarrow> deleteTimer i s = Inr s' \<Longrightarrow> wf_timer s'"
  by (auto simp: deleteTimer_def wf_timer_def split: if_splits)

lemma wf_exec_call: "wf_timer s \<Longrightarrow> exec_call now c s = Inr s' \<Longrightarrow> wf_timer s'"
proof (cases c)
  case (CallDeleteTimer i)
  assume "wf_timer s" "exec_call now c s = Inr s'"
  with CallDeleteTimer show ?thesis by (auto dest: wf_deleteTimer)
next
  case (CallSetTimer d f n)
  assume "wf_timer s" "exec_call now c s = Inr s'"
  with CallSetTimer show ?thesis by (auto simp: wf_setTimer)
next
  case (CallSetInterval d f)
  assume "wf_timer s" "exec_call now c s = Inr s'"
  with CallSetInterval show ?thesis by (auto simp: wf_setTimer setInterval_def)
next
  case (CallSetTimeout d f)
  assume "wf_timer s" "exec_call now c s = Inr s'"
  with CallSetTimeout show ?thesis by (auto simp: wf_setTimer setTimeout_def)
qed (auto simp: restartTimer_def enable_def disable_def toggle_def wf_timer_def split: if_splits)

lemma count_inv_setTimer:
  assumes "wf_timer s" and "count_inv s"
  shows "count_inv (fst (setTimer now d f n s))"
proof (cases "0 \<le> findFirstFreeSlot s \<and> f \<noteq> 0")
  case False
  then show ?thesis using assms(2) by (auto simp: setTimer_def Let_def)
next
  case True
  define r where "r = findFirstFreeSlot s"
  define s' where "s' = fst (setTimer now d f n s)"
  from True have nn: "0 \<le> r" and f: "f \<noteq> 0" by (simp_all add: r_def)
  from findFirstFreeSlot_free [OF r_def [symmetric] nn]
  have lt: "r < MAX_TIMERS" and room: "numTimers s < MAX_TIMERS" and free: "callbacks s ! nat r = 0"
    by simp_all
  have cb: "callbacks s' = (callbacks s)[nat r := f]" and nt: "numTimers s' = numTimers s + 1"
    using nn f by (simp_all add: s'_def setTimer_def Let_def r_def)
  have "length (in_use s') = Suc (length (in_use s))"
    using in_use_add [of "nat r" s f s'] lt nn free f cb assms(1) by (simp add: wf_timer_def)
  with nt room assms(2) show ?thesis
    unfolding s'_def [symmetric] by (simp add: count_inv_def)
qed

lemma count_inv_deleteTimer:
  assumes "wf_timer s" and "count_inv s" and "deleteTimer i s = Inr s'"
  shows "count_inv s'"
proof (cases "s' = s")
  case True
  then show ?thesis using assms(2) by simp
next
  case False
  with assms(3) have i: "0 \<le> i" "i < MAX_TIMERS" and used: "callbacks s ! nat i \<noteq> 0"
    and cb: "callbacks s' = (callbacks s)[nat i := 0]" and nt: "numTimers s' = numTimers s - 1"
    by (auto simp: deleteTimer_def split: if_splits)
  have "Suc (length (in_use s')) = length (in_use s)"
    using in_use_remove [of "nat i" s s'] i used cb assms(1) by (simp add: wf_timer_def)
  with nt assms(2) show ?thesis by (auto simp: count_inv_def)
qed

lemma count_inv_exec_call:
  assumes "wf_timer s" and "count_inv s" and "exec_call now c s = Inr s'"
  shows "count_inv s'"
proof -
  have same: "callbacks s' = callbacks s \<Longrightarrow> numTimers s' = numTimers s \<Longrightarrow> count_inv s'"
    using assms(2) by (simp add: count_inv_def in_use_def)
  show ?thesis
  proof (cases c)
    case (CallDeleteTimer i)
    with assms show ?thesis by (auto dest: count_inv_deleteTimer)
  next
    case (CallSetTimer d f n)
    with assms show ?thesis by (auto simp: count_inv_setTimer)
  next
    case (CallSetInterval d f)
    with assms show ?thesis by (auto simp: count_inv_setTimer setInterval_def)
  next
    case (CallSetTimeout d f)
    with assms show ?thesis by (auto simp: count_inv_setTimer setTimeout_def)
  next
    case (CallRestartTimer i)
    with assms(3) have "callbacks s' = callbacks s \<and> numTimers s' = numTimers s"
      by (auto simp: restartTimer_def split: if_splits)
    then show ?thesis using same by simp
  next
    case (CallEnable i)
    with assms(3) have "callbacks s' = callbacks s \<and> numTimers s' = numTimers s"
      by (auto simp: enable_def split: if_splits)
    then show ?thesis using same by simp
  next
    case (CallDisable i)
    with assms(3) have "callbacks s' = callbacks s \<and> numTimers s' = numTimers s"
      by (auto simp: disable_def split: if_splits)
    then show ?thesis using same by simp
  next
    case (CallToggle i)
    with assms(3) have "callbacks s' = callbacks s \<and> numTimers s' = numTimers s"
      by (auto simp: toggle_def split: if_splits)
    then show ?thesis using same by simp
  qed
qed

lemma exec_call_total: "call_ok c \<Longrightarrow> \<exists>s'. exec_call now c s = Inr s'"
  by (cases c) (auto simp: deleteTimer_def restartTimer_def enable_def disable_def toggle_def)

lemma exec_calls_preserve:
  assumes "\<And>c s s'. P s \<Longrightarrow> exec_call now c s = Inr s' \<Longrightarrow> P s'"
  shows "P s \<Longrightarrow> exec_calls now cs s = Inr s' \<Longrightarrow> P s'"
proof (induction cs arbitrary: s)
  case Nil
  then show ?case by simp
next
  case (Cons c cs)
  then show ?case by (auto split: sum.splits dest: assms)
qed

lemma wf_count_exec_calls:
  "wf_timer s \<and> count_inv s \<Longrightarrow> exec_calls now cs s = Inr s' \<Longrightarrow> wf_timer s' \<and> count_inv s'"
  by (rule exec_calls_preserve [where P = "\<lambda>s. wf_timer s \<and> count_inv s"])
     (auto dest: wf_exec_call count_inv_exec_call)

lemma wf_exec_calls: "wf_timer s \<Longrightarrow> exec_calls now cs s = Inr s' \<Longrightarrow> wf_timer s'"
  by (rule exec_calls_preserve [where P = wf_timer]) (auto dest: wf_exec_call)

lemma exec_calls_total: "list_all call_ok cs \<Longrightarrow> \<exists>s'. exec_calls now cs s = Inr s'"
proof (induction cs arbitrary: s)
  case Nil
  then show ?case by simp
next
  case (Cons c cs)
  then obtain s1 where "exec_call now c s = Inr s1"
    using exec_call_total [of c now s] by auto
  with Cons show ?case by simp
qed

lemma setTimer_eval:
  "setTimer now d f n s =
     (if numTimers s \<ge> 10 then (s, -1)
      else case find (\<lambda>i. callbacks s ! i = 0) [0, 1, 2, 3, 4, 5, 6, 7, 8, 9] of
        None \<Rightarrow> (s, -1)
      | Some i \<Rightarrow> if f = 0 then (s, -1) else
          (s\<lparr>delays := (delays s)[i := d],
              callbacks := (callbacks s)[i := f],
              maxNumRuns := (maxNumRuns s)[i := n],
              enabled := (enabled s)[i := True],
              prev_millis := (prev_millis s)[i := now],
              numTimers := numTimers s + 1\<rparr>, int i))"
  by (simp add: setTimer_def findFirstFreeSlot_def upt_MAX Let_def split: option.splits)

lemma wf_raw0: "wf_timer raw0"
  by (simp add: wf_timer_def raw0_def)

lemma count_inv_raw0: "count_inv raw0"
  by (simp add: count_inv_def in_use_def raw0_def upt_MAX)

lemma free_runs_zero_raw0: "free_runs_zero raw0"
  by (simp add: free_runs_zero_def raw0_def upt_MAX)

lemma setTimer_raw0:
  "setTimer 5 1000 7 3 raw0 =
     (\<lparr>prev_millis = [5, 0, 0, 0, 0, 0, 0, 0, 0, 0],
       callbacks = [7, 0, 0, 0, 0, 0, 0, 0, 0, 0],
       delays = [1000, 0, 0, 0, 0, 0, 0, 0, 0, 0],
       maxNumRuns = [3, 0, 0, 0, 0, 0, 0, 0, 0, 0],
       numRuns = [0, 0, 0, 0, 0, 0, 0, 0, 0, 0],
       enabled = [True, False, False, False, False, False, False, False, False, False],
       toBeCalled = [0, 0, 0, 0, 0, 0, 0, 0, 0, 0],
       numTimers = 1\<rparr>, 0)"
  by (simp add: setTimer_eval raw0_def)

lemma wf_full10: "wf_timer full10"
  by (simp add: wf_timer_def full10_def)

lemma count_inv_full10: "count_inv full10"
  by (simp add: count_inv_def in_use_def full10_def upt_MAX)

lemma setTimer_full10: "setTimer 0 5 1 0 full10 = (full10, -1)"
  by (simp add: setTimer_eval full10_def)

lemma deleteTimer_full10:
  "deleteTimer 4 full10 =
     Inr \<lparr>prev_millis = [0, 0, 0, 0, 0, 0, 0, 0, 0, 0],
           callbacks = [1, 2, 3, 4, 0, 6, 7, 8, 9, 10],
           delays = [100, 100, 100, 100, 0, 100, 100, 100, 100, 100],
           maxNumRuns = [0, 0, 0, 0, 0, 0, 0, 0, 0, 0],
           numRuns = [0, 0, 0, 0, 0, 0, 0, 0, 0, 0],
           enabled = [True, True, True, True, False, True, True, True, True, True],
           toBeCalled = [0, 0, 0, 0, 0, 0, 0, 0, 0, 0],
           numTimers = 9\<rparr>"
  by (simp add: deleteTimer_def full10_def)

lemma numTimers_full:
  assumes "count_inv s" and "\<forall>i<10. callbacks s ! i \<noteq> 0"
  shows "numTimers s = MAX_TIMERS"
proof -
  have "in_use s = [0..<10]"
    unfolding in_use_def using assms(2) by (simp add: filter_id_conv)
  with assms(1) show ?thesis by (simp add: count_inv_def)
qed

lemma numTimers_room:
  assumes "count_inv s" and "i < 10" and "callbacks s ! i = 0"
  shows "numTimers s < MAX_TIMERS"
proof -
  have "length (in_use s) < length [0..<10::nat]"
    unfolding in_use_def using assms(2,3)
    by (simp only: nat_numeral) (rule length_filter_less [of i], auto)
  with assms(1) show ?thesis by (simp add: count_inv_def)
qed

section \<open>The first loop of run()\<close>

lemma slot_eq_iff:
  "slot s' i = slot s i \<longleftrightarrow>
     prev_millis s' ! i = prev_millis s ! i \<and> callbacks s' ! i = callbacks s ! i \<and>
     delays s' ! i = delays s ! i \<and> maxNumRuns s' ! i = maxNumRuns s ! i \<and>
     numRuns s' ! i = numRuns s ! i \<and> enabled s' ! i = enabled s ! i \<and>
     toBeCalled s' ! i = toBeCalled s ! i"
  by (simp add: slot_def)

lemma wf_phase1_slot: "wf_timer s \<Longrightarrow> wf_timer (phase1_slot now k s)"
  by (simp add: phase1_slot_def Let_def wf_timer_def)

lemma phase1_slot_frame:
  "callbacks (phase1_slot now k s) = callbacks s"
  "delays (phase1_slot now k s) = delays s"
  "maxNumRuns (phase1_slot now k s) = maxNumRuns s"
  "enabled (phase1_slot now k s) = enabled s"
  "numTimers (phase1_slot now k s) = numTimers s"
  by (simp_all add: phase1_slot_def Let_def)

lemma phase1_slot_other: "k \<noteq> i \<Longrightarrow> slot (phase1_slot now k s) i = slot s i"
  by (simp add: phase1_slot_def Let_def slot_def)

lemma phase1_slot_local:
  assumes "wf_timer s" and "wf_timer s'" and "i < 10" and "slot s' i = slot s i"
  shows "slot (phase1_slot now i s') i = slot (phase1_slot now i s) i"
  using assms
  by (simp add: slot_eq_iff phase1_slot_def Let_def is_due_def wf_timer_def)

lemma fold_frame:
  assumes "\<And>k s. g (f k s) = g s"
  shows "g (fold f ks s) = g s"
  by (induction ks arbitrary: s) (simp_all add: assms)

lemma fold_inv:
  assumes "\<And>k s. P s \<Longrightarrow> P (f k s)"
  shows "P s \<Longrightarrow> P (fold f ks s)"
  by (induction ks arbitrary: s) (simp_all add: assms)

lemma fold_phase1_notin:
  "i \<notin> set ks \<Longrightarrow> slot (fold (phase1_slot now) ks s) i = slot s i"
  by (induction ks arbitrary: s) (simp_all add: phase1_slot_other)

lemma fold_phase1_in:
  assumes "i < 10"
  shows "wf_timer s \<Longrightarrow> distinct ks \<Longrightarrow> i \<in> set ks \<Longrightarrow>
         slot (fold (phase1_slot now) ks s) i = slot (phase1_slot now i s) i"
proof (induction ks arbitrary: s)
  case Nil
  then show ?case by simp
next
  case (Cons k ks)
  show ?case
  proof (cases "k = i")
    case True
    with Cons.prems show ?thesis by (simp add: fold_phase1_notin)
  next
    case False
    with Cons.prems have "i \<in> set ks" and "distinct ks" by simp_all
    from Cons.IH [OF wf_phase1_slot [OF Cons.prems(1)] this(2,1)]
    have "slot (fold (phase1_slot now) (k # ks) s) i
          = slot (phase1_slot now i (phase1_slot now k s)) i"
      by simp
    also have "\<dots> = slot (phase1_slot now i s) i"
      by (rule phase1_slot_local [OF Cons.prems(1) wf_phase1_slot [OF Cons.prems(1)] assms])
         (simp add: phase1_slot_other False)
    finally show ?thesis .
  qed
qed

lemma wf_phase1: "wf_timer s \<Longrightarrow> wf_timer (phase1 now s)"
  unfolding phase1_def by (rule fold_inv) (rule wf_phase1_slot)

lemma phase1_frame:
  "callbacks (phase1 now s) = callbacks s"
  "delays (phase1 now s) = delays s"
  "maxNumRuns (phase1 now s) = maxNumRuns s"
  "enabled (phase1 now s) = enabled s"
  "numTimers (phase1 now s) = numTimers s"
  unfolding phase1_def
  by (rule fold_frame, simp add: phase1_slot_frame)+

lemma phase1_slot_at:
  assumes "wf_timer s" and "i < 10"
  shows "slot (phase1 now s) i = slot (phase1_slot now i s) i"
  unfolding phase1_def using assms by (simp add: fold_phase1_in)

lemma phase1_prev_millis:
  assumes "wf_timer s" and "i < 10"
  shows "prev_millis (phase1 now s) ! i =
         (if callbacks s ! i \<noteq> 0 \<and> is_due now s i
          then prev_millis s ! i + delays s ! i else prev_millis s ! i)"
  using phase1_slot_at [OF assms, of now] assms
  by (simp add: slot_def phase1_slot_def Let_def wf_timer_def is_due_def)

lemma phase1_numRuns:
  assumes "wf_timer s" and "i < 10"
  shows "numRuns (phase1 now s) ! i =
         (if callbacks s ! i \<noteq> 0 \<and> is_due now s i \<and> enabled s ! i \<and>
             maxNumRuns s ! i \<noteq> RUN_FOREVER \<and> numRuns s ! i < maxNumRuns s ! i
          then numRuns s ! i + 1 else numRuns s ! i)"
  using phase1_slot_at [OF assms, of now] assms
  by (simp add: slot_def phase1_slot_def Let_def wf_timer_def is_due_def)

lemma decided_eq:
  assumes "wf_timer s" and "i < 10"
  shows "decided now s i =
         (if callbacks s ! i \<noteq> 0 \<and> is_due now s i \<and> enabled s ! i then
            if maxNumRuns s ! i = RUN_FOREVER then DEFCALL_RUNONLY
            else if numRuns s ! i < maxNumRuns s ! i then
              if numRuns s ! i + 1 \<ge> maxNumRuns s ! i then DEFCALL_RUNANDDEL
              else DEFCALL_RUNONLY
            else DEFCALL_DONTRUN
          else DEFCALL_DONTRUN)"
  using phase1_slot_at [OF assms, of now] assms
  by (simp add: decided_def slot_def phase1_slot_def Let_def wf_timer_def is_due_def)

section \<open>Calls made by callbacks\<close>

lemma nth_list_update_if:
  "xs[i := x] ! j = (if i = j \<and> i < length xs then x else xs ! j)"
  by (cases "i < length xs") (auto simp: nth_list_update list_update_beyond)

lemma armed_iff:
  "armed s \<longleftrightarrow> (\<forall>i<10. toBeCalled s ! i \<noteq> DEFCALL_DONTRUN \<longrightarrow> callbacks s ! i \<noteq> 0)"
  by (auto simp: armed_def)

lemma free_runs_zero_iff:
  "free_runs_zero s \<longleftrightarrow> (\<forall>i<10. callbacks s ! i = 0 \<longrightarrow> numRuns s ! i = 0)"
  by (auto simp: free_runs_zero_def)

lemma exec_call_toBeCalled:
  assumes "wf_timer s" and "exec_call now c s = Inr s'" and "j < 10"
  shows "toBeCalled s' ! j = toBeCalled s ! j \<or> toBeCalled s' ! j = DEFCALL_DONTRUN"
  using assms
  by (cases c)
     (auto simp: setTimer_def setInterval_def setTimeout_def Let_def deleteTimer_def
        restartTimer_def enable_def disable_def toggle_def wf_timer_def nth_list_update
        split: if_splits)

lemma exec_call_toBeCalled_keep:
  assumes "exec_call now c s = Inr s'" and "c \<noteq> CallDeleteTimer (int j)"
  shows "toBeCalled s' ! j = toBeCalled s ! j"
proof (cases c)
  case (CallDeleteTimer i)
  with assms(2) have "i \<noteq> int j" by simp
  then have "0 \<le> i \<Longrightarrow> nat i \<noteq> j" by auto
  with assms(1) CallDeleteTimer show ?thesis
    by (auto simp: deleteTimer_def split: if_splits)
qed (use assms(1) in \<open>auto simp: setTimer_def setInterval_def setTimeout_def Let_def
        restartTimer_def enable_def disable_def toggle_def split: if_splits\<close>)

lemma armed_setTimer:
  assumes "wf_timer s" and "armed s"
  shows "armed (fst (setTimer now d f n s))"
proof (cases "0 \<le> findFirstFreeSlot s \<and> f \<noteq> 0")
  case False
  then show ?thesis using assms(2) by (auto simp: setTimer_def Let_def)
next
  case True
  then show ?thesis
    using assms
    by (auto simp: setTimer_def Let_def armed_iff wf_timer_def nth_list_update_if)
qed

lemma armed_exec_call:
  assumes "wf_timer s" and "armed s" and "exec_call now c s = Inr s'"
  shows "armed s'"
proof (cases c)
  case (CallDeleteTimer i)
  with assms show ?thesis
    by (auto simp: deleteTimer_def armed_iff wf_timer_def nth_list_update split: if_splits)
next
  case (CallSetTimer d f n)
  with assms show ?thesis by (auto simp: armed_setTimer)
next
  case (CallSetInterval d f)
  with assms show ?thesis by (auto simp: armed_setTimer setInterval_def)
next
  case (CallSetTimeout d f)
  with assms show ?thesis by (auto simp: armed_setTimer setTimeout_def)
next
  case (CallRestartTimer i)
  with assms show ?thesis by (auto simp: restartTimer_def armed_iff split: if_splits)
next
  case (CallEnable i)
  with assms show ?thesis by (auto simp: enable_def armed_iff split: if_splits)
next
  case (CallDisable i)
  with assms show ?thesis by (auto simp: disable_def armed_iff split: if_splits)
next
  case (CallToggle i)
  with assms show ?thesis by (auto simp: toggle_def armed_iff split: if_splits)
qed

lemma wf_armed_exec_calls:
  "wf_timer s \<and> armed s \<Longrightarrow> exec_calls now cs s = Inr s' \<Longrightarrow> wf_timer s' \<and> armed s'"
  by (rule exec_calls_preserve [where P = "\<lambda>s. wf_timer s \<and> armed s"])
     (auto dest: wf_exec_call armed_exec_call)

lemma exec_calls_toBeCalled:
  assumes "wf_timer s" and "exec_calls now cs s = Inr s'" and "j < 10"
  shows "toBeCalled s' ! j = toBeCalled s ! j \<or> toBeCalled s' ! j = DEFCALL_DONTRUN"
proof -
  define a where "a = toBeCalled s ! j"
  have "wf_timer s' \<and> (toBeCalled s' ! j = a \<or> toBeCalled s' ! j = DEFCALL_DONTRUN)"
  proof (rule exec_calls_preserve
      [where P = "\<lambda>s. wf_timer s \<and> (toBeCalled s ! j = a \<or> toBeCalled s ! j = DEFCALL_DONTRUN)"
         and s = s and s' = s'])
    show "wf_timer s \<and> (toBeCalled s ! j = a \<or> toBeCalled s ! j = DEFCALL_DONTRUN)"
      using assms(1) by (simp add: a_def)
    show "exec_calls now cs s = Inr s'" by (rule assms(2))
  next
    fix c t t'
    assume "wf_timer t \<and> (toBeCalled t ! j = a \<or> toBeCalled t ! j = DEFCALL_DONTRUN)"
      and "exec_call now c t = Inr t'"
    then show "wf_timer t' \<and> (toBeCalled t' ! j = a \<or> toBeCalled t' ! j = DEFCALL_DONTRUN)"
      using exec_call_toBeCalled [of t now c t' j] wf_exec_call [of t now c t'] assms(3)
      by auto
  qed
  then show ?thesis by (simp add: a_def)
qed

lemma exec_calls_toBeCalled_keep:
  "exec_calls now cs s = Inr s' \<Longrightarrow> CallDeleteTimer (int j) \<notin> set cs \<Longrightarrow>
   toBeCalled s' ! j = toBeCalled s ! j"
proof (induction cs arbitrary: s)
  case Nil
  then show ?case by simp
next
  case (Cons c cs)
  from Cons.prems(1) obtain s1 where c: "exec_call now c s = Inr s1"
    and cs: "exec_calls now cs s1 = Inr s'"
    by (auto split: sum.splits)
  from Cons.prems(2) have "c \<noteq> CallDeleteTimer (int j)" and "CallDeleteTimer (int j) \<notin> set cs"
    by auto
  with Cons.IH [OF cs] exec_call_toBeCalled_keep [OF c] show ?case by simp
qed

section \<open>The second loop of run()\<close>

lemma invoke_Inr:
  "invoke prog now i s = Inr s' \<Longrightarrow>
   callbacks s ! i \<noteq> 0 \<and> exec_calls now (prog (callbacks s ! i)) s = Inr s'"
  by (auto simp: invoke_def split: if_splits)

lemma phase2_slot_cases:
  assumes "phase2_slot prog now i (s, lg) = Inr (s', lg')"
  shows "(toBeCalled s ! i \<noteq> DEFCALL_RUNONLY \<and> toBeCalled s ! i \<noteq> DEFCALL_RUNANDDEL \<and>
            s' = s \<and> lg' = lg) \<or>
         (toBeCalled s ! i = DEFCALL_RUNONLY \<and> invoke prog now i s = Inr s' \<and>
            lg' = lg @ [(i, DEFCALL_RUNONLY)]) \<or>
         (toBeCalled s ! i = DEFCALL_RUNANDDEL \<and>
            (\<exists>s1. invoke prog now i s = Inr s1 \<and> deleteTimer (int i) s1 = Inr s') \<and>
            lg' = lg @ [(i, DEFCALL_RUNANDDEL)])"
  using assms
  by (auto simp: phase2_slot_def Let_def split: if_splits sum.splits)

lemma deleteTimer_toBeCalled:
  "deleteTimer i s = Inr s' \<Longrightarrow>
   toBeCalled s' ! j = toBeCalled s ! j \<or> toBeCalled s' ! j = DEFCALL_DONTRUN"
  by (auto simp: deleteTimer_def nth_list_update_if split: if_splits)

lemma deleteTimer_toBeCalled_keep:
  "deleteTimer (int i) s = Inr s' \<Longrightarrow> i \<noteq> j \<Longrightarrow> toBeCalled s' ! j = toBeCalled s ! j"
  by (auto simp: deleteTimer_def split: if_splits)

lemma armed_deleteTimer:
  "wf_timer s \<Longrightarrow> armed s \<Longrightarrow> deleteTimer i s = Inr s' \<Longrightarrow> armed s'"
  using armed_exec_call [of s _ "CallDeleteTimer i" s'] by simp

lemma phase2_slot_inv:
  assumes "phase2_slot prog now i (s, lg) = Inr (s', lg')" and "wf_timer s"
  shows "wf_timer s'" and "count_inv s \<Longrightarrow> count_inv s'" and "armed s \<Longrightarrow> armed s'"
proof -
  from phase2_slot_cases [OF assms(1)]
  consider "s' = s"
    | "exec_calls now (prog (callbacks s ! i)) s = Inr s'"
    | s1 where "exec_calls now (prog (callbacks s ! i)) s = Inr s1"
        and "deleteTimer (int i) s1 = Inr s'"
    by (auto dest: invoke_Inr)
  then have "wf_timer s' \<and> (count_inv s \<longrightarrow> count_inv s') \<and> (armed s \<longrightarrow> armed s')"
  proof cases
    case 1
    then show ?thesis using assms(2) by simp
  next
    case 2
    then show ?thesis
      using wf_count_exec_calls [of s now _ s'] wf_armed_exec_calls [of s now _ s']
        wf_exec_calls [of s now _ s'] assms(2)
      by blast
  next
    case 3
    then show ?thesis
      using wf_count_exec_calls [of s now _ s1] wf_armed_exec_calls [of s now _ s1]
        wf_exec_calls [of s now _ s1] assms(2)
        wf_deleteTimer [of s1 "int i" s'] count_inv_deleteTimer [of s1 "int i" s']
        armed_deleteTimer [of s1 "int i" s']
      by blast
  qed
  then show "wf_timer s'" and "count_inv s \<Longrightarrow> count_inv s'" and "armed s \<Longrightarrow> armed s'"
    by simp_all
qed

lemma phase2_slot_toBeCalled:
  assumes "phase2_slot prog now i (s, lg) = Inr (s', lg')" and "wf_timer s" and "j < 10"
  shows "toBeCalled s' ! j = toBeCalled s ! j \<or> toBeCalled s' ! j = DEFCALL_DONTRUN"
proof -
  from phase2_slot_cases [OF assms(1)]
  consider "s' = s"
    | "exec_calls now (prog (callbacks s ! i)) s = Inr s'"
    | s1 where "exec_calls now (prog (callbacks s ! i)) s = Inr s1"
        and "deleteTimer (int i) s1 = Inr s'"
    by (auto dest: invoke_Inr)
  then show ?thesis
  proof cases
    case 1
    then show ?thesis by simp
  next
    case 2
    then show ?thesis using exec_calls_toBeCalled [OF assms(2) _ assms(3)] by simp
  next
    case 3
    with exec_calls_toBeCalled [OF assms(2) _ assms(3), of now _ s1]
      deleteTimer_toBeCalled [of "int i" s1 s' j]
    show ?thesis by auto
  qed
qed

lemma phase2_slot_toBeCalled_keep:
  assumes "phase2_slot prog now i (s, lg) = Inr (s', lg')" and "i \<noteq> j"
    and "never_deletes prog j"
  shows "toBeCalled s' ! j = toBeCalled s ! j"
proof -
  from assms(3) have nd: "CallDeleteTimer (int j) \<notin> set (prog f)" for f
    by (simp add: never_deletes_def)
  from phase2_slot_cases [OF assms(1)]
  consider "s' = s"
    | "exec_calls now (prog (callbacks s ! i)) s = Inr s'"
    | s1 where "exec_calls now (prog (callbacks s ! i)) s = Inr s1"
        and "deleteTimer (int i) s1 = Inr s'"
    by (auto dest: invoke_Inr)
  then show ?thesis
  proof cases
    case 1
    then show ?thesis by simp
  next
    case 2
    then show ?thesis using exec_calls_toBeCalled_keep [OF _ nd] by simp
  next
    case 3
    with exec_calls_toBeCalled_keep [OF _ nd, of now _ s s1]
      deleteTimer_toBeCalled_keep [OF _ assms(2), of s1 s']
    show ?thesis by simp
  qed
qed

lemma phase2_slot_total:
  assumes "wf_timer s" and "armed s" and "prog_ok prog" and "i < 10"
  shows "\<exists>r. phase2_slot prog now i (s, lg) = Inr r"
proof (cases "toBeCalled s ! i = DEFCALL_RUNONLY \<or> toBeCalled s ! i = DEFCALL_RUNANDDEL")
  case False
  then show ?thesis by (simp add: phase2_slot_def)
next
  case True
  with assms(2,4) have cb: "callbacks s ! i \<noteq> 0" by (auto simp: armed_iff)
  from assms(3) have "list_all call_ok (prog (callbacks s ! i))" by (simp add: prog_ok_def)
  from exec_calls_total [OF this, of now s] cb obtain s1 where s1: "invoke prog now i s = Inr s1"
    by (auto simp: invoke_def)
  have "\<exists>s2. deleteTimer (int i) s1 = Inr s2"
    by (simp add: deleteTimer_def)
  with s1 True show ?thesis by (auto simp: phase2_slot_def)
qed

lemma phase2_loop_append:
  "phase2_loop prog now (xs @ ys) sl =
     (case phase2_loop prog now xs sl of
        Inl e \<Rightarrow> Inl e
      | Inr sl' \<Rightarrow> phase2_loop prog now ys sl')"
  by (induction xs arbitrary: sl) (auto split: sum.splits)

lemma phase2_loop_inv:
  "phase2_loop prog now ks (s, lg) = Inr (s', lg') \<Longrightarrow> wf_timer s \<Longrightarrow>
   wf_timer s' \<and> (count_inv s \<longrightarrow> count_inv s') \<and> (armed s \<longrightarrow> armed s')"
proof (induction ks arbitrary: s lg)
  case Nil
  then show ?case by simp
next
  case (Cons k ks)
  from Cons.prems(1) obtain s1 lg1 where k: "phase2_slot prog now k (s, lg) = Inr (s1, lg1)"
    and ks: "phase2_loop prog now ks (s1, lg1) = Inr (s', lg')"
    by (auto split: sum.splits)
  from phase2_slot_inv [OF k Cons.prems(2)] Cons.IH [OF ks]
  show ?case by blast
qed

lemma phase2_loop_total:
  "wf_timer s \<Longrightarrow> armed s \<Longrightarrow> prog_ok prog \<Longrightarrow> \<forall>k \<in> set ks. k < 10 \<Longrightarrow>
   \<exists>r. phase2_loop prog now ks (s, lg) = Inr r"
proof (induction ks arbitrary: s lg)
  case Nil
  then show ?case by simp
next
  case (Cons k ks)
  from Cons.prems have "k < 10" by simp
  from phase2_slot_total [OF Cons.prems(1-3) this, of now lg]
  obtain s1 lg1 where k: "phase2_slot prog now k (s, lg) = Inr (s1, lg1)" by auto
  from phase2_slot_inv [OF k Cons.prems(1)] Cons.prems(2)
  have "wf_timer s1" and "armed s1" by simp_all
  from Cons.IH [OF this Cons.prems(3), of lg1] Cons.prems(4) k
  show ?case by simp
qed

lemma phase2_loop_log:
  "phase2_loop prog now ks (s, lg) = Inr (s', lg') \<Longrightarrow> wf_timer s \<Longrightarrow>
   \<forall>k \<in> set ks. k < 10 \<Longrightarrow>
   \<exists>new. lg' = lg @ new \<and>
     (\<forall>e \<in> set new. fst e \<in> set ks \<and> (snd e = DEFCALL_RUNONLY \<or> snd e = DEFCALL_RUNANDDEL) \<and>
        toBeCalled s ! fst e = snd e) \<and>
     (distinct ks \<longrightarrow> distinct (map fst new))"
proof (induction ks arbitrary: s lg)
  case Nil
  then show ?case by simp
next
  case (Cons k ks)
  from Cons.prems(1) obtain s1 lg1 where k: "phase2_slot prog now k (s, lg) = Inr (s1, lg1)"
    and ks: "phase2_loop prog now ks (s1, lg1) = Inr (s', lg')"
    by (auto split: sum.splits)
  from phase2_slot_inv [OF k Cons.prems(2)] have wf1: "wf_timer s1" by simp
  from Cons.prems(3) have lt: "\<forall>k \<in> set ks. k < 10" by simp
  from Cons.IH [OF ks wf1 lt] obtain new where new: "lg' = lg1 @ new"
    and ent: "\<forall>e \<in> set new. fst e \<in> set ks \<and>
        (snd e = DEFCALL_RUNONLY \<or> snd e = DEFCALL_RUNANDDEL) \<and> toBeCalled s1 ! fst e = snd e"
    and dist: "distinct ks \<longrightarrow> distinct (map fst new)"
    by blast
  from phase2_slot_cases [OF k]
  obtain e where e: "lg1 = lg @ e"
    and e_cases: "e = [] \<or> (e = [(k, toBeCalled s ! k)] \<and>
        (toBeCalled s ! k = DEFCALL_RUNONLY \<or> toBeCalled s ! k = DEFCALL_RUNANDDEL))"
    by auto
  have orig: "toBeCalled s ! fst x = snd x" if "x \<in> set new" for x
  proof -
    from ent that have in_ks: "fst x \<in> set ks" and nz: "snd x \<noteq> DEFCALL_DONTRUN"
      and eq: "toBeCalled s1 ! fst x = snd x"
      by auto
    from in_ks lt have "fst x < 10" by simp
    from phase2_slot_toBeCalled [OF k Cons.prems(2) this] eq nz show ?thesis by simp
  qed
  have "lg' = lg @ (e @ new)" using new e by simp
  moreover have "\<forall>x \<in> set (e @ new). fst x \<in> set (k # ks) \<and>
        (snd x = DEFCALL_RUNONLY \<or> snd x = DEFCALL_RUNANDDEL) \<and> toBeCalled s ! fst x = snd x"
    using e_cases ent orig by auto
  moreover have "distinct (k # ks) \<longrightarrow> distinct (map fst (e @ new))"
    using e_cases ent dist by auto
  ultimately show ?case by blast
qed

lemma phase2_loop_log_mono:
  "phase2_loop prog now ks (s, lg) = Inr (s', lg') \<Longrightarrow> set lg \<subseteq> set lg'"
proof (induction ks arbitrary: s lg)
  case Nil
  then show ?case by simp
next
  case (Cons k ks)
  from Cons.prems(1) obtain s1 lg1 where k: "phase2_slot prog now k (s, lg) = Inr (s1, lg1)"
    and ks: "phase2_loop prog now ks (s1, lg1) = Inr (s', lg')"
    by (auto split: sum.splits)
  from phase2_slot_cases [OF k] have "set lg \<subseteq> set lg1" by auto
  with Cons.IH [OF ks] show ?case by blast
qed

lemma phase2_loop_fires:
  "phase2_loop prog now ks (s, lg) = Inr (s', lg') \<Longrightarrow> j \<in> set ks \<Longrightarrow> distinct ks \<Longrightarrow>
   never_deletes prog j \<Longrightarrow> toBeCalled s ! j = a \<Longrightarrow>
   a = DEFCALL_RUNONLY \<or> a = DEFCALL_RUNANDDEL \<Longrightarrow> (j, a) \<in> set lg'"
proof (induction ks arbitrary: s lg)
  case Nil
  then show ?case by simp
next
  case (Cons k ks)
  from Cons.prems(1) obtain s1 lg1 where k: "phase2_slot prog now k (s, lg) = Inr (s1, lg1)"
    and ks: "phase2_loop prog now ks (s1, lg1) = Inr (s', lg')"
    by (auto split: sum.splits)
  show ?case
  proof (cases "k = j")
    case True
    with phase2_slot_cases [OF k] Cons.prems(5,6) have "(j, a) \<in> set lg1" by auto
    moreover have "set lg1 \<subseteq> set lg'"
      using phase2_loop_log_mono [OF ks] .
    ultimately show ?thesis by blast
  next
    case False
    with Cons.prems have "j \<in> set ks" and "distinct ks" by simp_all
    moreover from phase2_slot_toBeCalled_keep [OF k False Cons.prems(4)] Cons.prems(5)
    have "toBeCalled s1 ! j = a" by simp
    ultimately show ?thesis
      using Cons.IH [OF ks] Cons.prems(4,6) by blast
  qed
qed

section \<open>run() as a whole\<close>

lemma armed_phase1: "wf_timer s \<Longrightarrow> armed (phase1 now s)"
  unfolding armed_iff phase1_frame
  using decided_eq [of s _ now] by (auto simp: decided_def split: if_splits)

lemma count_inv_phase1: "count_inv (phase1 now s) = count_inv s"
  by (simp add: count_inv_def in_use_def phase1_frame)

lemma upt_MAX_lt: "\<forall>k \<in> set [0..<nat MAX_TIMERS]. k < 10"
  by simp

lemma run_total:
  assumes "wf_timer s" and "prog_ok prog"
  shows "\<exists>s' lg. run prog now s = Inr (s', lg)"
  using phase2_loop_total [OF wf_phase1 [OF assms(1)] armed_phase1 [OF assms(1)] assms(2)
      upt_MAX_lt, of now now "[]"]
  by (auto simp: run_def phase2_def)

lemma run_inv:
  assumes "run prog now s = Inr (s', lg)" and "wf_timer s"
  shows "wf_timer s'" and "count_inv s \<Longrightarrow> count_inv s'"
  using phase2_loop_inv [of prog now "[0..<nat MAX_TIMERS]" "phase1 now s" "[]" s' lg]
    assms wf_phase1 [OF assms(2), of now]
  by (simp_all add: run_def phase2_def count_inv_phase1)

lemma run_log:
  assumes "run prog now s = Inr (s', lg)" and "wf_timer s"
  shows "distinct (fired lg)"
    and "e \<in> set lg \<Longrightarrow> fst e < 10 \<and> (snd e = DEFCALL_RUNONLY \<or> snd e = DEFCALL_RUNANDDEL) \<and>
           decided now s (fst e) = snd e"
proof -
  from assms(1) have "phase2_loop prog now [0..<nat MAX_TIMERS] (phase1 now s, []) = Inr (s', lg)"
    by (simp add: run_def phase2_def)
  from phase2_loop_log [OF this wf_phase1 [OF assms(2)] upt_MAX_lt]
  have ent: "\<forall>e \<in> set lg. fst e \<in> set [0..<nat MAX_TIMERS] \<and>
        (snd e = DEFCALL_RUNONLY \<or> snd e = DEFCALL_RUNANDDEL) \<and>
        toBeCalled (phase1 now s) ! fst e = snd e"
    and dist: "distinct (map fst lg)"
    by auto
  from dist show "distinct (fired lg)" by (simp add: fired_def)
  from ent show "e \<in> set lg \<Longrightarrow> fst e < 10 \<and>
      (snd e = DEFCALL_RUNONLY \<or> snd e = DEFCALL_RUNANDDEL) \<and> decided now s (fst e) = snd e"
    by (auto simp: decided_def)
qed

lemma run_fires:
  assumes "run prog now s = Inr (s', lg)" and "j < 10" and "never_deletes prog j"
    and "decided now s j = DEFCALL_RUNONLY \<or> decided now s j = DEFCALL_RUNANDDEL"
  shows "(j, decided now s j) \<in> set lg"
proof -
  from assms(1) have "phase2_loop prog now [0..<nat MAX_TIMERS] (phase1 now s, []) = Inr (s', lg)"
    by (simp add: run_def phase2_def)
  from phase2_loop_fires [OF this _ _ assms(3), of "decided now s j"] assms(2,4)
  show ?thesis by (simp add: decided_def)
qed

section \<open>The constructor\<close>

lemma ctor_slot_inv:
  "wf_timer s \<Longrightarrow> wf_timer (ctor_slot now k s)"
  by (simp add: ctor_slot_def wf_timer_def)

lemma ctor_slot_keeps:
  "wf_timer s \<and> callbacks s ! i = 0 \<and> numRuns s ! i = 0 \<and> \<not> enabled s ! i \<and>
     prev_millis s ! i = now \<Longrightarrow>
   wf_timer (ctor_slot now k s) \<and> callbacks (ctor_slot now k s) ! i = 0 \<and>
     numRuns (ctor_slot now k s) ! i = 0 \<and> \<not> enabled (ctor_slot now k s) ! i \<and>
     prev_millis (ctor_slot now k s) ! i = now"
  by (simp add: ctor_slot_def wf_timer_def nth_list_update_if)

lemma ctor_fold:
  assumes "wf_timer s" and "i < 10" and "i \<in> set ks"
  shows "callbacks (fold (ctor_slot now) ks s) ! i = 0 \<and>
         numRuns (fold (ctor_slot now) ks s) ! i = 0 \<and>
         \<not> enabled (fold (ctor_slot now) ks s) ! i \<and>
         prev_millis (fold (ctor_slot now) ks s) ! i = now"
proof -
  from assms(3) obtain xs ys where ks: "ks = xs @ i # ys"
    by (auto simp: in_set_conv_decomp)
  define s1 where "s1 = ctor_slot now i (fold (ctor_slot now) xs s)"
  have "wf_timer (fold (ctor_slot now) xs s)"
    using assms(1) by (rule fold_inv [rotated]) (rule ctor_slot_inv)
  then have "wf_timer s1 \<and> callbacks s1 ! i = 0 \<and> numRuns s1 ! i = 0 \<and> \<not> enabled s1 ! i \<and>
     prev_millis s1 ! i = now"
    using assms(2) by (simp add: s1_def ctor_slot_def wf_timer_def)
  then have "wf_timer (fold (ctor_slot now) ys s1) \<and> callbacks (fold (ctor_slot now) ys s1) ! i = 0 \<and>
     numRuns (fold (ctor_slot now) ys s1) ! i = 0 \<and> \<not> enabled (fold (ctor_slot now) ys s1) ! i \<and>
     prev_millis (fold (ctor_slot now) ys s1) ! i = now"
    by (rule fold_inv [rotated]) (rule ctor_slot_keeps)
  then show ?thesis by (simp add: ks s1_def)
qed

lemma ctor_slots:
  assumes "wf_timer raw" and "i < 10"
  shows "callbacks (SimpleTimer_ctor now raw) ! i = 0"
    and "numRuns (SimpleTimer_ctor now raw) ! i = 0"
    and "\<not> enabled (SimpleTimer_ctor now raw) ! i"
    and "prev_millis (SimpleTimer_ctor now raw) ! i = now"
  using ctor_fold [OF assms, of "[0..<nat MAX_TIMERS]" now] assms(2)
  by (simp_all add: SimpleTimer_ctor_def)

lemma wf_ctor: "wf_timer raw \<Longrightarrow> wf_timer (SimpleTimer_ctor now raw)"
proof -
  assume "wf_timer raw"
  then have "wf_timer (fold (ctor_slot now) [0..<nat MAX_TIMERS] raw)"
    by (rule fold_inv [rotated]) (rule ctor_slot_inv)
  then show ?thesis by (simp add: SimpleTimer_ctor_def wf_timer_def)
qed

lemma count_inv_ctor:
  assumes "wf_timer raw"
  shows "count_inv (SimpleTimer_ctor now raw)"
proof -
  have "in_use (SimpleTimer_ctor now raw) = []"
    unfolding in_use_def using ctor_slots(1) [OF assms] by (simp add: filter_empty_conv)
  then show ?thesis by (simp add: count_inv_def SimpleTimer_ctor_def)
qed

lemma free_runs_zero_ctor: "wf_timer raw \<Longrightarrow> free_runs_zero (SimpleTimer_ctor now raw)"
  by (simp add: free_runs_zero_iff ctor_slots)

section \<open>Evaluation of the examples\<close>

lemma two_timers_eq:
  "two_timers =
     \<lparr>prev_millis = [0, 0, 0, 0, 0, 0, 0, 0, 0, 0],
      callbacks = [1, 2, 0, 0, 0, 0, 0, 0, 0, 0],
      delays = [10, 10, 0, 0, 0, 0, 0, 0, 0, 0],
      maxNumRuns = [0, 0, 0, 0, 0, 0, 0, 0, 0, 0],
      numRuns = [0, 0, 0, 0, 0, 0, 0, 0, 0, 0],
      enabled = [True, True, False, False, False, False, False, False, False, False],
      toBeCalled = [0, 0, 0, 0, 0, 0, 0, 0, 0, 0],
      numTimers = 2\<rparr>"
proof -
  have "fst (setTimer 0 10 1 0 raw0) =
     \<lparr>prev_millis = [0, 0, 0, 0, 0, 0, 0, 0, 0, 0],
      callbacks = [1, 0, 0, 0, 0, 0, 0, 0, 0, 0],
      delays = [10, 0, 0, 0, 0, 0, 0, 0, 0, 0],
      maxNumRuns = [0, 0, 0, 0, 0, 0, 0, 0, 0, 0],
      numRuns = [0, 0, 0, 0, 0, 0, 0, 0, 0, 0],
      enabled = [True, False, False, False, False, False, False, False, False, False],
      toBeCalled = [0, 0, 0, 0, 0, 0, 0, 0, 0, 0],
      numTimers = 1\<rparr>"
    by (simp add: setTimer_eval raw0_def)
  then show ?thesis
    unfolding two_timers_def ctor_raw0 by (simp add: setTimer_eval)
qed




lemma wf_two_timers: "wf_timer two_timers"
  unfolding two_timers_eq by (simp add: wf_timer_def)

lemma count_inv_two_timers: "count_inv two_timers"
  unfolding two_timers_eq by (simp add: count_inv_def in_use_def upt_MAX)

lemma prog_ok_reconf1: "prog_ok prog_reconf1"
  by (simp add: prog_ok_def prog_reconf1_def)

section \<open>run() with callbacks that leave the timer object alone\<close>

lemma inert_prog_ok: "inert prog \<Longrightarrow> prog_ok prog"
  by (simp add: inert_def prog_ok_def)

lemma inert_never_deletes: "inert prog \<Longrightarrow> never_deletes prog j"
  by (simp add: inert_def never_deletes_def)

lemma inert_invoke:
  "inert prog \<Longrightarrow> invoke prog now i s = (if callbacks s ! i = 0 then Inl NullCall else Inr s)"
  by (simp add: inert_def invoke_def)

lemma inert_phase2_slot:
  assumes "inert prog" and "phase2_slot prog now k (s, lg) = Inr (s', lg')"
  shows "(toBeCalled s ! k \<noteq> DEFCALL_RUNANDDEL \<and> s' = s) \<or>
         (toBeCalled s ! k = DEFCALL_RUNANDDEL \<and> callbacks s ! k \<noteq> 0 \<and>
            deleteTimer (int k) s = Inr s')"
  using phase2_slot_cases [OF assms(2)]
  by (auto simp: inert_invoke [OF assms(1)] split: if_splits)

lemma deleteTimer_other:
  "deleteTimer (int k) s = Inr s' \<Longrightarrow> k \<noteq> i \<Longrightarrow> slot s' i = slot s i"
  by (auto simp: deleteTimer_def slot_def split: if_splits)

lemma deleteTimer_in_use:
  assumes "wf_timer s" and "count_inv s" and "i < 10" and "callbacks s ! i \<noteq> 0"
  shows "deleteTimer (int i) s =
     Inr (s\<lparr>callbacks := (callbacks s)[i := 0],
            enabled := (enabled s)[i := False],
            toBeCalled := (toBeCalled s)[i := DEFCALL_DONTRUN],
            delays := (delays s)[i := 0],
            numRuns := (numRuns s)[i := 0],
            numTimers := numTimers s - 1\<rparr>)"
proof -
  from in_use_pos [OF assms(3,4)] assms(2) have "numTimers s \<noteq> 0"
    by (simp add: count_inv_def)
  with assms(3,4) show ?thesis by (simp add: deleteTimer_def)
qed

lemma inert_phase2_loop_other:
  "inert prog \<Longrightarrow> phase2_loop prog now ks (s, lg) = Inr (s', lg') \<Longrightarrow> i \<notin> set ks \<Longrightarrow>
   slot s' i = slot s i"
proof (induction ks arbitrary: s lg)
  case Nil
  then show ?case by simp
next
  case (Cons k ks)
  from Cons.prems(2) obtain s1 lg1 where k: "phase2_slot prog now k (s, lg) = Inr (s1, lg1)"
    and ks: "phase2_loop prog now ks (s1, lg1) = Inr (s', lg')"
    by (auto split: sum.splits)
  from Cons.prems(3) have ne: "k \<noteq> i" and notin: "i \<notin> set ks" by auto
  from inert_phase2_slot [OF Cons.prems(1) k] deleteTimer_other [of k s s1 i] ne
  have "slot s1 i = slot s i" by auto
  with Cons.IH [OF Cons.prems(1) ks notin] show ?case by simp
qed

lemma phase2_loop_split:
  assumes "phase2_loop prog now (xs @ k # ys) sl = Inr r"
  obtains sa sb where "phase2_loop prog now xs sl = Inr sa"
    and "phase2_slot prog now k sa = Inr sb"
    and "phase2_loop prog now ys sb = Inr r"
  using assms by (auto simp: phase2_loop_append split: sum.splits)

lemma upt_split: "i < n \<Longrightarrow> [0..<n] = [0..<i] @ i # [Suc i..<n]"
  using upt_add_eq_append [of 0 i "n - i"] by (simp add: upt_conv_Cons)

lemma inert_run_slot:
  assumes "inert prog" and "wf_timer s" and "count_inv s" and "i < 10"
    and "run prog now s = Inr (s', lg)"
  shows "decided now s i \<noteq> DEFCALL_RUNANDDEL \<Longrightarrow> slot s' i = slot (phase1 now s) i"
    and "decided now s i = DEFCALL_RUNANDDEL \<Longrightarrow>
         callbacks s' ! i = 0 \<and> numRuns s' ! i = 0 \<and> delays s' ! i = 0 \<and> \<not> enabled s' ! i \<and>
         toBeCalled s' ! i = DEFCALL_DONTRUN \<and>
         prev_millis s' ! i = prev_millis (phase1 now s) ! i \<and>
         maxNumRuns s' ! i = maxNumRuns s ! i"
proof -
  from assms(5) have "phase2_loop prog now ([0..<i] @ i # [Suc i..<10]) (phase1 now s, []) = Inr (s', lg)"
    using upt_split [OF assms(4)] by (simp add: run_def phase2_def)
  then obtain sa la sb lb where a: "phase2_loop prog now [0..<i] (phase1 now s, []) = Inr (sa, la)"
    and b: "phase2_slot prog now i (sa, la) = Inr (sb, lb)"
    and c: "phase2_loop prog now [Suc i..<10] (sb, lb) = Inr (s', lg)"
    by (auto elim!: phase2_loop_split)
  have sa: "slot sa i = slot (phase1 now s) i"
    using inert_phase2_loop_other [OF assms(1) a] by simp
  have s': "slot s' i = slot sb i"
    using inert_phase2_loop_other [OF assms(1) c] by simp
  from phase2_loop_inv [OF a wf_phase1 [OF assms(2)]] assms(3)
  have wfa: "wf_timer sa" and cnt: "count_inv sa" by (simp_all add: count_inv_phase1)
  from sa have tbc: "toBeCalled sa ! i = decided now s i"
    by (simp add: slot_eq_iff decided_def)
  {
    assume "decided now s i \<noteq> DEFCALL_RUNANDDEL"
    with inert_phase2_slot [OF assms(1) b] tbc have "sb = sa" by auto
    with sa s' show "slot s' i = slot (phase1 now s) i" by simp
  next
    assume "decided now s i = DEFCALL_RUNANDDEL"
    with inert_phase2_slot [OF assms(1) b] tbc
    have cb: "callbacks sa ! i \<noteq> 0" and del: "deleteTimer (int i) sa = Inr sb" by auto
    from del deleteTimer_in_use [OF wfa cnt assms(4) cb] assms(4) wfa
    have "callbacks sb ! i = 0 \<and> numRuns sb ! i = 0 \<and> delays sb ! i = 0 \<and> \<not> enabled sb ! i \<and>
         toBeCalled sb ! i = DEFCALL_DONTRUN \<and> prev_millis sb ! i = prev_millis sa ! i \<and>
         maxNumRuns sb ! i = maxNumRuns sa ! i"
      by (auto simp: wf_timer_def)
    with sa s' show "callbacks s' ! i = 0 \<and> numRuns s' ! i = 0 \<and> delays s' ! i = 0 \<and>
         \<not> enabled s' ! i \<and> toBeCalled s' ! i = DEFCALL_DONTRUN \<and>
         prev_millis s' ! i = prev_millis (phase1 now s) ! i \<and>
         maxNumRuns s' ! i = maxNumRuns s ! i"
      by (simp add: slot_eq_iff phase1_frame)
  }
qed

lemma distinct_count_list:
  "distinct xs \<Longrightarrow> count_list xs x = (if x \<in> set xs then 1 else 0)"
  by (induction xs) auto

lemma run_fire_count:
  assumes "wf_timer s" and "run prog now s = Inr (s', lg)"
  shows "count_list (fired lg) i \<le> 1"
    and "i < 10 \<Longrightarrow> never_deletes prog i \<Longrightarrow>
         count_list (fired lg) i =
           (if decided now s i = DEFCALL_RUNONLY \<or> decided now s i = DEFCALL_RUNANDDEL
            then 1 else 0)"
    and "decided now s i = DEFCALL_DONTRUN \<Longrightarrow> i \<notin> set (fired lg)"
proof -
  from run_log(1) [OF assms(2,1)] have d: "distinct (fired lg)" .
  then show "count_list (fired lg) i \<le> 1"
    by (cases "i \<in> set (fired lg)") (simp_all add: distinct_count_list)
  show no: "i \<notin> set (fired lg)" if "decided now s i = DEFCALL_DONTRUN"
  proof
    assume "i \<in> set (fired lg)"
    then obtain b where "(i, b) \<in> set lg" by (auto simp: fired_def)
    from run_log(2) [OF assms(2,1) this] that show False by auto
  qed
  show "count_list (fired lg) i =
           (if decided now s i = DEFCALL_RUNONLY \<or> decided now s i = DEFCALL_RUNANDDEL
            then 1 else 0)"
    if "i < 10" and "never_deletes prog i"
  proof (cases "decided now s i = DEFCALL_RUNONLY \<or> decided now s i = DEFCALL_RUNANDDEL")
    case True
    from run_fires [OF assms(2) that True] have "i \<in> set (fired lg)"
      by (force simp: fired_def)
    with d True show ?thesis by (simp add: distinct_count_list)
  next
    case False
    with decided_eq [OF assms(1) that(1), of now] have "decided now s i = DEFCALL_DONTRUN"
      by (auto split: if_splits)
    from no [OF this] False show ?thesis by simp
  qed
qed

section \<open>Arithmetic of ticks\<close>

lemma late_poll_arith:
  fixes now prev p :: "32 word"
  assumes "1 < k" and "k * unat p \<le> unat (now - prev)"
  shows "p \<le> now - prev"
    and "unat (now - (prev + p)) = unat (now - prev) - unat p"
    and "unat p \<le> unat (now - prev) - unat p"
    and "unat (now - prev) + d < 2 ^ 32 \<Longrightarrow>
         unat ((now + of_nat d) - (prev + p)) = unat (now - prev) - unat p + d"
proof -
  from assms(1) have "2 \<le> k" by simp
  then have "2 * unat p \<le> k * unat p" by (rule mult_le_mono1)
  from this assms(2) have two: "2 * unat p \<le> unat (now - prev)" by (rule order_trans)
  then show le: "p \<le> now - prev" by (simp add: word_le_nat_alt)
  have eq: "now - (prev + p) = (now - prev) - p" by simp
  from le show sub: "unat (now - (prev + p)) = unat (now - prev) - unat p"
    unfolding eq by (simp add: unat_sub)
  from two show "unat p \<le> unat (now - prev) - unat p" by simp
  assume d: "unat (now - prev) + d < 2 ^ 32"
  then have dn: "unat (of_nat d :: 32 word) = d" by (simp add: unat_of_nat)
  have e2: "(now + of_nat d) - (prev + p) = (now - (prev + p)) + of_nat d" by simp
  have add_eq: "unat ((now - (prev + p)) + (of_nat d :: 32 word))
      = unat (now - (prev + p)) + unat (of_nat d :: 32 word)"
    using d sub dn by (subst unat_add_lem [THEN iffD1]) simp_all
  show "unat ((now + of_nat d) - (prev + p)) = unat (now - prev) - unat p + d"
    by (simp only: e2 add_eq sub dn)
qed

lemma inert_no_calls: "inert no_calls"
  by (simp add: inert_def no_calls_def)

lemma phase1_two_timers_25:
  "phase1 25 two_timers =
     \<lparr>prev_millis = [10, 10, 0, 0, 0, 0, 0, 0, 0, 0],
      callbacks = [1, 2, 0, 0, 0, 0, 0, 0, 0, 0],
      delays = [10, 10, 0, 0, 0, 0, 0, 0, 0, 0],
      maxNumRuns = [0, 0, 0, 0, 0, 0, 0, 0, 0, 0],
      numRuns = [0, 0, 0, 0, 0, 0, 0, 0, 0, 0],
      enabled = [True, True, False, False, False, False, False, False, False, False],
      toBeCalled = [1, 1, 0, 0, 0, 0, 0, 0, 0, 0],
      numTimers = 2\<rparr>"
  unfolding two_timers_eq
  by (simp add: phase1_def upt_MAX phase1_slot_def Let_def is_due_def)

lemma run_no_calls_25:
  "run no_calls 25 two_timers =
     Inr (\<lparr>prev_millis = [10, 10, 0, 0, 0, 0, 0, 0, 0, 0],
      callbacks = [1, 2, 0, 0, 0, 0, 0, 0, 0, 0],
      delays = [10, 10, 0, 0, 0, 0, 0, 0, 0, 0],
      maxNumRuns = [0, 0, 0, 0, 0, 0, 0, 0, 0, 0],
      numRuns = [0, 0, 0, 0, 0, 0, 0, 0, 0, 0],
      enabled = [True, True, False, False, False, False, False, False, False, False],
      toBeCalled = [1, 1, 0, 0, 0, 0, 0, 0, 0, 0],
      numTimers = 2\<rparr>, [(0, 1), (1, 1)])"
  unfolding run_def phase1_two_timers_25
  by (simp add: phase2_def upt_MAX phase2_slot_def invoke_def no_calls_def)

lemma one_disabled_eq:
  "one_disabled =
     \<lparr>prev_millis = [0, 0, 0, 0, 0, 0, 0, 0, 0, 0],
      callbacks = [1, 2, 0, 0, 0, 0, 0, 0, 0, 0],
      delays = [10, 10, 0, 0, 0, 0, 0, 0, 0, 0],
      maxNumRuns = [0, 0, 0, 0, 0, 0, 0, 0, 0, 0],
      numRuns = [0, 0, 0, 0, 0, 0, 0, 0, 0, 0],
      enabled = [True, False, False, False, False, False, False, False, False, False],
      toBeCalled = [0, 0, 0, 0, 0, 0, 0, 0, 0, 0],
      numTimers = 2\<rparr>"
  unfolding one_disabled_def two_timers_eq by (simp add: disable_def)

lemma wf_one_disabled: "wf_timer one_disabled"
  unfolding one_disabled_eq by (simp add: wf_timer_def)

lemma count_inv_one_disabled: "count_inv one_disabled"
  unfolding one_disabled_eq by (simp add: count_inv_def in_use_def upt_MAX)

lemma phase1_one_disabled_12:
  "phase1 12 one_disabled =
     \<lparr>prev_millis = [10, 10, 0, 0, 0, 0, 0, 0, 0, 0],
      callbacks = [1, 2, 0, 0, 0, 0, 0, 0, 0, 0],
      delays = [10, 10, 0, 0, 0, 0, 0, 0, 0, 0],
      maxNumRuns = [0, 0, 0, 0, 0, 0, 0, 0, 0, 0],
      numRuns = [0, 0, 0, 0, 0, 0, 0, 0, 0, 0],
      enabled = [True, False, False, False, False, False, False, False, False, False],
      toBeCalled = [1, 0, 0, 0, 0, 0, 0, 0, 0, 0],
      numTimers = 2\<rparr>"
  unfolding one_disabled_eq
  by (simp add: phase1_def upt_MAX phase1_slot_def Let_def is_due_def)

lemma run_one_disabled_12:
  "run no_calls 12 one_disabled =
     Inr (\<lparr>prev_millis = [10, 10, 0, 0, 0, 0, 0, 0, 0, 0],
      callbacks = [1, 2, 0, 0, 0, 0, 0, 0, 0, 0],
      delays = [10, 10, 0, 0, 0, 0, 0, 0, 0, 0],
      maxNumRuns = [0, 0, 0, 0, 0, 0, 0, 0, 0, 0],
      numRuns = [0, 0, 0, 0, 0, 0, 0, 0, 0, 0],
      enabled = [True, False, False, False, False, False, False, False, False, False],
      toBeCalled = [1, 0, 0, 0, 0, 0, 0, 0, 0, 0],
      numTimers = 2\<rparr>, [(0, 1)])"
  unfolding run_def phase1_one_disabled_12
  by (simp add: phase2_def upt_MAX phase2_slot_def invoke_def no_calls_def)

lemma enable_keeps:
  assumes "enable (int i) s = Inr s1" and "wf_timer s" and "i < 10"
  shows "wf_timer s1" and "enabled s1 ! i" and "callbacks s1 = callbacks s"
    and "is_due now s1 i = is_due now s i" and "maxNumRuns s1 = maxNumRuns s"
    and "numRuns s1 = numRuns s"
  using assms by (auto simp: enable_def wf_timer_def is_due_def split: if_splits)

section \<open>Sequences of run() calls\<close>

lemma fired_append: "fired (xs @ ys) = fired xs @ fired ys"
  by (simp add: fired_def)

lemma inert_run_quiet:
  assumes "inert prog" and "wf_timer s" and "count_inv s" and "i < 10"
    and "decided now s i = DEFCALL_DONTRUN"
  obtains s' lg where "run prog now s = Inr (s', lg)" and "wf_timer s'" and "count_inv s'"
    and "slot s' i = slot (phase1 now s) i" and "i \<notin> set (fired lg)"
proof -
  from run_total [OF assms(2) inert_prog_ok [OF assms(1)], of now]
  obtain s' lg where r: "run prog now s = Inr (s', lg)" by auto
  from inert_run_slot(1) [OF assms(1-4) r] assms(5)
  have "slot s' i = slot (phase1 now s) i" by simp
  with that [OF r] run_inv [OF r assms(2)] assms(3) run_fire_count(3) [OF assms(2) r assms(5)]
  show ?thesis by simp
qed

lemma negative_limit_runs:
  assumes "inert prog" and "i < 10" and "f \<noteq> 0" and "n < 0"
  shows "wf_timer s \<Longrightarrow> count_inv s \<Longrightarrow> callbacks s ! i = f \<Longrightarrow> maxNumRuns s ! i = n \<Longrightarrow>
         numRuns s ! i = 0 \<Longrightarrow> i \<notin> set (fired lg0) \<Longrightarrow>
         \<exists>s2 lg. runs prog ts (s, lg0) = Inr (s2, lg) \<and> i \<notin> set (fired lg) \<and>
           callbacks s2 ! i = f \<and> maxNumRuns s2 ! i = n \<and> numRuns s2 ! i = 0"
proof (induction ts arbitrary: s lg0)
  case Nil
  then show ?case by simp
next
  case (Cons t ts)
  have dec: "decided t s i = DEFCALL_DONTRUN"
    using Cons.prems(4,5) assms(4) by (simp add: decided_eq [OF Cons.prems(1) assms(2)])
  from inert_run_quiet [OF assms(1) Cons.prems(1,2) assms(2) dec]
  obtain s' lg where r: "run prog t s = Inr (s', lg)" and wf': "wf_timer s'"
    and cnt': "count_inv s'" and sl: "slot s' i = slot (phase1 t s) i"
    and q: "i \<notin> set (fired lg)"
    by blast
  have nr: "numRuns (phase1 t s) ! i = 0"
    using Cons.prems(4,5) assms(4) by (simp add: phase1_numRuns [OF Cons.prems(1) assms(2)])
  from sl nr Cons.prems(3,4) have keep: "callbacks s' ! i = f" "maxNumRuns s' ! i = n"
    "numRuns s' ! i = 0"
    by (simp_all add: slot_eq_iff phase1_frame)
  from q Cons.prems(6) have "i \<notin> set (fired (lg0 @ lg))" by (simp add: fired_append)
  from Cons.IH [OF wf' cnt' keep this] r show ?case by simp
qed

lemma setTimer_live:
  assumes "wf_timer s" and "count_inv s" and "free_runs_zero s"
    and "setTimer now d f n s = (s1, r)" and "0 \<le> r"
  shows "wf_timer s1" and "count_inv s1" and "nat r < 10" and "f \<noteq> 0"
    and "callbacks s1 ! nat r = f" and "enabled s1 ! nat r" and "delays s1 ! nat r = d"
    and "maxNumRuns s1 ! nat r = n" and "numRuns s1 ! nat r = 0"
    and "prev_millis s1 ! nat r = now"
proof -
  from assms(4,5) have fr: "findFirstFreeSlot s = r" and f: "f \<noteq> 0"
    by (auto simp: setTimer_def Let_def split: if_splits)
  from findFirstFreeSlot_free [OF fr assms(5)] assms(5)
  have idx: "nat r < 10" and free: "callbacks s ! nat r = 0" by auto
  from idx free assms(3) have runs0: "numRuns s ! nat r = 0" by (simp add: free_runs_zero_iff)
  from assms(4) have s1: "s1 = fst (setTimer now d f n s)" by simp
  show "wf_timer s1" unfolding s1 by (rule wf_setTimer [OF assms(1)])
  show "count_inv s1" unfolding s1 by (rule count_inv_setTimer [OF assms(1,2)])
  show "nat r < 10" by (rule idx)
  show "f \<noteq> 0" by (rule f)
  show "callbacks s1 ! nat r = f" and "enabled s1 ! nat r" and "delays s1 ! nat r = d"
    and "maxNumRuns s1 ! nat r = n" and "numRuns s1 ! nat r = 0"
    and "prev_millis s1 ! nat r = now"
    using fr f assms(1,5) idx runs0 unfolding s1
    by (simp_all add: setTimer_def Let_def wf_timer_def)
qed

lemma setTimer_neg_raw0: "snd (setTimer 0 10 7 (-1) raw0) = 0"
  by (simp add: setTimer_eval raw0_def)

lemma late_due:
  fixes t t0 p :: "32 word"
  assumes "j < n" and "n * unat p \<le> unat (t - t0)"
  shows "p \<le> t - (t0 + of_nat j * p)"
proof -
  from assms(1) have "Suc j \<le> n" by simp
  then have "Suc j * unat p \<le> n * unat p" by (rule mult_le_mono1)
  with assms(2) have room: "j * unat p + unat p \<le> unat (t - t0)" by simp
  have "unat (t - t0) < 2 ^ 32" using unsigned_less [of "t - t0", where ?'a = nat] by simp
  with room have small: "j * unat p < 2 ^ 32" by simp
  have "of_nat j * p = (of_nat (j * unat p) :: 32 word)" by simp
  then have u: "unat (of_nat j * p) = j * unat p"
    using small by (simp only: unat_of_nat) simp
  with room have le: "of_nat j * p \<le> t - t0" by (simp add: word_le_nat_alt)
  have eq: "t - (t0 + of_nat j * p) = (t - t0) - of_nat j * p" by simp
  have "unat ((t - t0) - of_nat j * p) = unat (t - t0) - j * unat p"
    using le u by (simp add: unat_sub)
  with room show ?thesis unfolding eq by (simp add: word_le_nat_alt)
qed

lemma inert_run_bounded:
  assumes "inert prog" and "wf_timer s" and "count_inv s" and "i < 10"
    and "callbacks s ! i = f" and "f \<noteq> 0" and "enabled s ! i" and "delays s ! i = p"
    and "maxNumRuns s ! i = n" and "numRuns s ! i = int j" and "int j < n"
  obtains s' lg where "run prog now s = Inr (s', lg)" and "wf_timer s'" and "count_inv s'"
    and "\<not> is_due now s i \<Longrightarrow>
           count_list (fired lg) i = 0 \<and> callbacks s' ! i = f \<and> enabled s' ! i \<and>
           delays s' ! i = p \<and> maxNumRuns s' ! i = n \<and> numRuns s' ! i = int j \<and>
           prev_millis s' ! i = prev_millis s ! i"
    and "is_due now s i \<Longrightarrow> int (Suc j) < n \<Longrightarrow>
           count_list (fired lg) i = 1 \<and> callbacks s' ! i = f \<and> enabled s' ! i \<and>
           delays s' ! i = p \<and> maxNumRuns s' ! i = n \<and> numRuns s' ! i = int (Suc j) \<and>
           prev_millis s' ! i = prev_millis s ! i + p"
    and "is_due now s i \<Longrightarrow> int (Suc j) = n \<Longrightarrow>
           count_list (fired lg) i = 1 \<and> callbacks s' ! i = 0"
proof -
  from run_total [OF assms(2) inert_prog_ok [OF assms(1)], of now]
  obtain s' lg where r: "run prog now s = Inr (s', lg)" by auto
  note inv = run_inv [OF r assms(2)]
  note sl = inert_run_slot [OF assms(1-4) r]
  note cnt = run_fire_count(2) [OF assms(2) r assms(4) inert_never_deletes [OF assms(1)]]
  note dec = decided_eq [OF assms(2,4), of now]
  note pm = phase1_prev_millis [OF assms(2,4), of now]
  note nr = phase1_numRuns [OF assms(2,4), of now]
  from assms(11) have n0: "n \<noteq> 0" by auto
  show ?thesis
  proof (rule that [OF r inv(1) inv(2) [OF assms(3)]])
    assume nd: "\<not> is_due now s i"
    with dec have d0: "decided now s i = DEFCALL_DONTRUN" by simp
    with sl(1) have "slot s' i = slot (phase1 now s) i" by simp
    with nd pm nr assms(5,7,8,9,10) cnt d0
    show "count_list (fired lg) i = 0 \<and> callbacks s' ! i = f \<and> enabled s' ! i \<and>
           delays s' ! i = p \<and> maxNumRuns s' ! i = n \<and> numRuns s' ! i = int j \<and>
           prev_millis s' ! i = prev_millis s ! i"
      by (simp add: slot_eq_iff phase1_frame)
  next
    assume d: "is_due now s i" and more: "int (Suc j) < n"
    with dec assms(5-11) n0 have d1: "decided now s i = DEFCALL_RUNONLY" by simp
    with sl(1) have "slot s' i = slot (phase1 now s) i" by simp
    with d pm nr assms(5-11) n0 cnt d1
    show "count_list (fired lg) i = 1 \<and> callbacks s' ! i = f \<and> enabled s' ! i \<and>
           delays s' ! i = p \<and> maxNumRuns s' ! i = n \<and> numRuns s' ! i = int (Suc j) \<and>
           prev_millis s' ! i = prev_millis s ! i + p"
      by (simp add: slot_eq_iff phase1_frame)
  next
    assume d: "is_due now s i" and last: "int (Suc j) = n"
    with dec assms(5-11) n0 have d2: "decided now s i = DEFCALL_RUNANDDEL" by auto
    with sl(2) cnt show "count_list (fired lg) i = 1 \<and> callbacks s' ! i = 0" by simp
  qed
qed

lemma freed_slot_runs:
  assumes "inert prog" and "i < 10"
  shows "wf_timer s \<Longrightarrow> count_inv s \<Longrightarrow> callbacks s ! i = 0 \<Longrightarrow>
         \<exists>s2 lg. runs prog ts (s, lg0) = Inr (s2, lg) \<and> callbacks s2 ! i = 0 \<and>
           count_list (fired lg) i = count_list (fired lg0) i"
proof (induction ts arbitrary: s lg0)
  case Nil
  then show ?case by simp
next
  case (Cons t ts)
  have dec: "decided t s i = DEFCALL_DONTRUN"
    using Cons.prems(3) by (simp add: decided_eq [OF Cons.prems(1) assms(2)])
  from inert_run_quiet [OF assms(1) Cons.prems(1,2) assms(2) dec]
  obtain s' lg where r: "run prog t s = Inr (s', lg)" and wf': "wf_timer s'"
    and cnt': "count_inv s'" and sl: "slot s' i = slot (phase1 t s) i"
    and q: "i \<notin> set (fired lg)"
    by blast
  from sl Cons.prems(3) have free: "callbacks s' ! i = 0"
    by (simp add: slot_eq_iff phase1_frame)
  from Cons.IH [OF wf' cnt' free, of "lg0 @ lg"] r q show ?case
    by (simp add: fired_append)
qed

lemma bounded_slot_runs:
  assumes "inert prog" and "i < 10" and "f \<noteq> 0"
  shows "wf_timer s \<Longrightarrow> count_inv s \<Longrightarrow> callbacks s ! i = f \<Longrightarrow> enabled s ! i \<Longrightarrow>
         delays s ! i = p \<Longrightarrow> maxNumRuns s ! i = int n \<Longrightarrow> numRuns s ! i = int j \<Longrightarrow>
         j < n \<Longrightarrow> prev_millis s ! i = t0 + of_nat j * p \<Longrightarrow>
         count_list (fired lg0) i = j \<Longrightarrow>
         \<exists>s2 lg. runs prog ts (s, lg0) = Inr (s2, lg) \<and>
           count_list (fired lg) i \<le> n \<and>
           (count_list (fired lg) i = n \<longleftrightarrow> callbacks s2 ! i = 0) \<and>
           (n - j \<le> late_polls n p t0 ts \<longrightarrow> count_list (fired lg) i = n)"
proof (induction ts arbitrary: s lg0 j)
  case Nil
  with assms(3) show ?case by (simp add: late_polls_def)
next
  case (Cons t ts)
  from Cons.prems(8) have jn: "int j < int n" by simp
  from inert_run_bounded [OF assms(1) Cons.prems(1,2) assms(2) Cons.prems(3) assms(3)
      Cons.prems(4,5,6,7) jn, of t]
  obtain s' lg where r: "run prog t s = Inr (s', lg)" and wf': "wf_timer s'"
    and cnt': "count_inv s'"
    and quiet: "\<not> is_due t s i \<Longrightarrow>
           count_list (fired lg) i = 0 \<and> callbacks s' ! i = f \<and> enabled s' ! i \<and>
           delays s' ! i = p \<and> maxNumRuns s' ! i = int n \<and> numRuns s' ! i = int j \<and>
           prev_millis s' ! i = prev_millis s ! i"
    and fire: "is_due t s i \<Longrightarrow> int (Suc j) < int n \<Longrightarrow>
           count_list (fired lg) i = 1 \<and> callbacks s' ! i = f \<and> enabled s' ! i \<and>
           delays s' ! i = p \<and> maxNumRuns s' ! i = int n \<and> numRuns s' ! i = int (Suc j) \<and>
           prev_millis s' ! i = prev_millis s ! i + p"
    and final: "is_due t s i \<Longrightarrow> int (Suc j) = int n \<Longrightarrow>
           count_list (fired lg) i = 1 \<and> callbacks s' ! i = 0"
    by blast
  have late_is_due: "is_due t s i" if "n * unat p \<le> unat (t - t0)"
    using late_due [OF Cons.prems(8) that] Cons.prems(5,9) by (simp add: is_due_def)
  have step: "runs prog (t # ts) (s, lg0) = runs prog ts (s', lg0 @ lg)"
    using r by simp
  consider (quiet) "\<not> is_due t s i" | (fire) "is_due t s i" "Suc j < n"
    | (final) "is_due t s i" "Suc j = n"
    using Cons.prems(8) by linarith
  then show ?case
  proof cases
    case quiet
    note q = \<open>\<not> is_due t s i \<Longrightarrow> _\<close> [OF quiet]
    have c: "count_list (fired (lg0 @ lg)) i = j"
      using q Cons.prems(10) by (simp add: fired_append)
    have same: "late_polls n p t0 (t # ts) = late_polls n p t0 ts"
      using quiet late_is_due by (auto simp: late_polls_def)
    from q Cons.prems(9) have pm: "prev_millis s' ! i = t0 + of_nat j * p" by simp
    from Cons.IH [OF wf' cnt' _ _ _ _ _ Cons.prems(8) pm c, of ] q
    show ?thesis unfolding step same by simp
  next
    case fire
    from fire(2) have "int (Suc j) < int n" by simp
    note q = \<open>is_due t s i \<Longrightarrow> int (Suc j) < int n \<Longrightarrow> _\<close> [OF fire(1) this]
    have c: "count_list (fired (lg0 @ lg)) i = Suc j"
      using q Cons.prems(10) by (simp add: fired_append)
    have less: "late_polls n p t0 (t # ts) \<le> Suc (late_polls n p t0 ts)"
      by (simp add: late_polls_def)
    from q Cons.prems(9) have pm: "prev_millis s' ! i = t0 + of_nat (Suc j) * p"
      by (simp add: algebra_simps)
    from Cons.IH [OF wf' cnt' _ _ _ _ _ fire(2) pm c] q
    obtain s2 lg2 where rs: "runs prog ts (s', lg0 @ lg) = Inr (s2, lg2)"
      and le: "count_list (fired lg2) i \<le> n"
      and iff: "count_list (fired lg2) i = n \<longleftrightarrow> callbacks s2 ! i = 0"
      and enough: "n - Suc j \<le> late_polls n p t0 ts \<longrightarrow> count_list (fired lg2) i = n"
      by auto
    from less enough have "n - j \<le> late_polls n p t0 (t # ts) \<longrightarrow> count_list (fired lg2) i = n"
      by auto
    with rs le iff show ?thesis unfolding step by auto
  next
    case final
    from final(2) have "int (Suc j) = int n" by simp
    note q = \<open>is_due t s i \<Longrightarrow> int (Suc j) = int n \<Longrightarrow> _\<close> [OF final(1) this]
    have c: "count_list (fired (lg0 @ lg)) i = n"
      using q Cons.prems(10) final(2) by (simp add: fired_append)
    from q have free: "callbacks s' ! i = 0" by simp
    from freed_slot_runs [OF assms(1,2) wf' cnt' free, of ts "lg0 @ lg"] c
    show ?thesis unfolding step by auto
  qed
qed

lemma setTimer_twice_raw0:
  "setTimer 0 10 7 2 raw0 =
     (\<lparr>prev_millis = [0, 0, 0, 0, 0, 0, 0, 0, 0, 0],
       callbacks = [7, 0, 0, 0, 0, 0, 0, 0, 0, 0],
       delays = [10, 0, 0, 0, 0, 0, 0, 0, 0, 0],
       maxNumRuns = [2, 0, 0, 0, 0, 0, 0, 0, 0, 0],
       numRuns = [0, 0, 0, 0, 0, 0, 0, 0, 0, 0],
       enabled = [True, False, False, False, False, False, False, False, False, False],
       toBeCalled = [0, 0, 0, 0, 0, 0, 0, 0, 0, 0],
       numTimers = 1\<rparr>, 0)"
  by (simp add: setTimer_eval raw0_def)

lemma run_twice_100:
  "run no_calls 100 (fst (setTimer 0 10 7 2 raw0)) =
     Inr (\<lparr>prev_millis = [10, 0, 0, 0, 0, 0, 0, 0, 0, 0],
       callbacks = [7, 0, 0, 0, 0, 0, 0, 0, 0, 0],
       delays = [10, 0, 0, 0, 0, 0, 0, 0, 0, 0],
       maxNumRuns = [2, 0, 0, 0, 0, 0, 0, 0, 0, 0],
       numRuns = [1, 0, 0, 0, 0, 0, 0, 0, 0, 0],
       enabled = [True, False, False, False, False, False, False, False, False, False],
       toBeCalled = [1, 0, 0, 0, 0, 0, 0, 0, 0, 0],
       numTimers = 1\<rparr>, [(0, 1)])"
proof -
  have "phase1 100 (fst (setTimer 0 10 7 2 raw0)) =
     \<lparr>prev_millis = [10, 0, 0, 0, 0, 0, 0, 0, 0, 0],
       callbacks = [7, 0, 0, 0, 0, 0, 0, 0, 0, 0],
       delays = [10, 0, 0, 0, 0, 0, 0, 0, 0, 0],
       maxNumRuns = [2, 0, 0, 0, 0, 0, 0, 0, 0, 0],
       numRuns = [1, 0, 0, 0, 0, 0, 0, 0, 0, 0],
       enabled = [True, False, False, False, False, False, False, False, False, False],
       toBeCalled = [1, 0, 0, 0, 0, 0, 0, 0, 0, 0],
       numTimers = 1\<rparr>"
    unfolding setTimer_twice_raw0
    by (simp add: phase1_def upt_MAX phase1_slot_def Let_def is_due_def)
  then show ?thesis
    unfolding run_def
    by (simp add: phase2_def upt_MAX phase2_slot_def invoke_def no_calls_def)
qed

section \<open>Run counts of free slots\<close>

lemma free_runs_zero_setTimer:
  assumes "wf_timer s" and "free_runs_zero s"
  shows "free_runs_zero (fst (setTimer now d f n s))"
proof (cases "0 \<le> findFirstFreeSlot s \<and> f \<noteq> 0")
  case False
  then show ?thesis using assms(2) by (auto simp: setTimer_def Let_def)
next
  case True
  then show ?thesis
    using assms
    by (auto simp: setTimer_def Let_def free_runs_zero_iff wf_timer_def nth_list_update_if)
qed

lemma free_runs_zero_deleteTimer:
  "wf_timer s \<Longrightarrow> free_runs_zero s \<Longrightarrow> deleteTimer i s = Inr s' \<Longrightarrow> free_runs_zero s'"
  by (auto simp: deleteTimer_def free_runs_zero_iff wf_timer_def nth_list_update_if
      split: if_splits)

lemma free_runs_zero_exec_call:
  assumes "wf_timer s" and "free_runs_zero s" and "exec_call now c s = Inr s'"
  shows "free_runs_zero s'"
proof (cases c)
  case (CallDeleteTimer i)
  with assms show ?thesis by (auto dest: free_runs_zero_deleteTimer)
next
  case (CallSetTimer d f n)
  with assms show ?thesis by (auto simp: free_runs_zero_setTimer)
next
  case (CallSetInterval d f)
  with assms show ?thesis by (auto simp: free_runs_zero_setTimer setInterval_def)
next
  case (CallSetTimeout d f)
  with assms show ?thesis by (auto simp: free_runs_zero_setTimer setTimeout_def)
next
  case (CallRestartTimer i)
  with assms show ?thesis by (auto simp: restartTimer_def free_runs_zero_iff split: if_splits)
next
  case (CallEnable i)
  with assms show ?thesis by (auto simp: enable_def free_runs_zero_iff split: if_splits)
next
  case (CallDisable i)
  with assms show ?thesis by (auto simp: disable_def free_runs_zero_iff split: if_splits)
next
  case (CallToggle i)
  with assms show ?thesis by (auto simp: toggle_def free_runs_zero_iff split: if_splits)
qed

lemma free_runs_zero_exec_calls:
  "wf_timer s \<and> free_runs_zero s \<Longrightarrow> exec_calls now cs s = Inr s' \<Longrightarrow>
   wf_timer s' \<and> free_runs_zero s'"
  by (rule exec_calls_preserve [where P = "\<lambda>s. wf_timer s \<and> free_runs_zero s"])
     (auto dest: wf_exec_call free_runs_zero_exec_call)

lemma free_runs_zero_phase1:
  assumes "wf_timer s" and "free_runs_zero s"
  shows "free_runs_zero (phase1 now s)"
  using assms(2) unfolding free_runs_zero_iff phase1_frame
  by (auto simp: phase1_numRuns [OF assms(1)])

lemma free_runs_zero_phase2_slot:
  assumes "phase2_slot prog now i (s, lg) = Inr (s', lg')" and "wf_timer s"
    and "free_runs_zero s"
  shows "free_runs_zero s'"
proof -
  from phase2_slot_cases [OF assms(1)]
  consider "s' = s"
    | "exec_calls now (prog (callbacks s ! i)) s = Inr s'"
    | s1 where "exec_calls now (prog (callbacks s ! i)) s = Inr s1"
        and "deleteTimer (int i) s1 = Inr s'"
    by (auto dest: invoke_Inr)
  then show ?thesis
  proof cases
    case 1
    then show ?thesis using assms(3) by simp
  next
    case 2
    then show ?thesis using free_runs_zero_exec_calls [of s now _ s'] assms(2,3) by blast
  next
    case 3
    then show ?thesis
      using free_runs_zero_exec_calls [of s now _ s1] assms(2,3)
        free_runs_zero_deleteTimer [of s1 "int i" s']
      by blast
  qed
qed

lemma free_runs_zero_phase2_loop:
  "phase2_loop prog now ks (s, lg) = Inr (s', lg') \<Longrightarrow> wf_timer s \<Longrightarrow> free_runs_zero s \<Longrightarrow>
   free_runs_zero s'"
proof (induction ks arbitrary: s lg)
  case Nil
  then show ?case by simp
next
  case (Cons k ks)
  from Cons.prems(1) obtain s1 lg1 where k: "phase2_slot prog now k (s, lg) = Inr (s1, lg1)"
    and ks: "phase2_loop prog now ks (s1, lg1) = Inr (s', lg')"
    by (auto split: sum.splits)
  from Cons.IH [OF ks phase2_slot_inv(1) [OF k Cons.prems(2)]
      free_runs_zero_phase2_slot [OF k Cons.prems(2,3)]]
  show ?case .
qed

lemma free_runs_zero_run:
  assumes "run prog now s = Inr (s', lg)" and "wf_timer s" and "free_runs_zero s"
  shows "free_runs_zero s'"
  using free_runs_zero_phase2_loop [of prog now "[0..<nat MAX_TIMERS]" "phase1 now s" "[]" s' lg]
    assms wf_phase1 [OF assms(2), of now] free_runs_zero_phase1 [OF assms(2,3), of now]
  by (simp add: run_def phase2_def)

lemma reachable_invariants:
  "reachable prog s \<Longrightarrow> wf_timer s \<and> count_inv s \<and> free_runs_zero s"
proof (induction rule: reachable.induct)
  case (built raw now)
  then show ?case by (simp add: wf_ctor count_inv_ctor free_runs_zero_ctor)
next
  case (called s now c s')
  then show ?case
    using wf_exec_call [of s now c s'] count_inv_exec_call [of s now c s']
      free_runs_zero_exec_call [of s now c s']
    by blast
next
  case (polled s now s' lg)
  then show ?case
    using run_inv [of prog now s s' lg] free_runs_zero_run [of prog now s s' lg]
    by blast
qed

lemma reachable_raw0: "reachable prog raw0"
  using reachable.built [OF wf_raw0, of prog 0] by (simp add: ctor_raw0)

lemma wrap_timer_eq:
  "wrap_timer =
     \<lparr>prev_millis = [0xFFFFFF00, 0, 0, 0, 0, 0, 0, 0, 0, 0],
      callbacks = [7, 0, 0, 0, 0, 0, 0, 0, 0, 0],
      delays = [500, 0, 0, 0, 0, 0, 0, 0, 0, 0],
      maxNumRuns = [0, 0, 0, 0, 0, 0, 0, 0, 0, 0],
      numRuns = [0, 0, 0, 0, 0, 0, 0, 0, 0, 0],
      enabled = [True, False, False, False, False, False, False, False, False, False],
      toBeCalled = [0, 0, 0, 0, 0, 0, 0, 0, 0, 0],
      numTimers = 1\<rparr>"
  unfolding wrap_timer_def ctor_raw0 by (simp add: setTimer_eval raw0_def)

lemma wf_wrap_timer: "wf_timer wrap_timer"
  unfolding wrap_timer_eq by (simp add: wf_timer_def)

lemma decided_values:
  assumes "wf_timer s" and "i < 10"
  shows "decided now s i = DEFCALL_DONTRUN \<or> decided now s i = DEFCALL_RUNONLY \<or>
         decided now s i = DEFCALL_RUNANDDEL"
  by (simp add: decided_eq [OF assms])

lemma run_fired_iff:
  assumes "wf_timer s" and "i < 10" and "never_deletes prog i"
    and "run prog now s = Inr (s', lg)"
  shows "i \<in> set (fired lg) \<longleftrightarrow> decided now s i \<noteq> DEFCALL_DONTRUN"
proof
  assume "i \<in> set (fired lg)"
  with run_fire_count(3) [OF assms(1,4), of i] show "decided now s i \<noteq> DEFCALL_DONTRUN"
    by blast
next
  assume "decided now s i \<noteq> DEFCALL_DONTRUN"
  with decided_values [OF assms(1,2), of now]
  have "decided now s i = DEFCALL_RUNONLY \<or> decided now s i = DEFCALL_RUNANDDEL" by blast
  from run_fires [OF assms(4,2,3) this] show "i \<in> set (fired lg)"
    by (force simp: fired_def)
qed

lemma one_shot_eq:
  "one_shot =
     \<lparr>prev_millis = [0, 0, 0, 0, 0, 0, 0, 0, 0, 0],
      callbacks = [7, 0, 0, 0, 0, 0, 0, 0, 0, 0],
      delays = [10, 0, 0, 0, 0, 0, 0, 0, 0, 0],
      maxNumRuns = [1, 0, 0, 0, 0, 0, 0, 0, 0, 0],
      numRuns = [0, 0, 0, 0, 0, 0, 0, 0, 0, 0],
      enabled = [True, False, False, False, False, False, False, False, False, False],
      toBeCalled = [0, 0, 0, 0, 0, 0, 0, 0, 0, 0],
      numTimers = 1\<rparr>"
  unfolding one_shot_def ctor_raw0 setTimeout_def by (simp add: setTimer_eval raw0_def)

lemma run_one_shot_25:
  "run no_calls 25 one_shot =
     Inr (\<lparr>prev_millis = [10, 0, 0, 0, 0, 0, 0, 0, 0, 0],
      callbacks = [0, 0, 0, 0, 0, 0, 0, 0, 0, 0],
      delays = [0, 0, 0, 0, 0, 0, 0, 0, 0, 0],
      maxNumRuns = [1, 0, 0, 0, 0, 0, 0, 0, 0, 0],
      numRuns = [0, 0, 0, 0, 0, 0, 0, 0, 0, 0],
      enabled = [False, False, False, False, False, False, False, False, False, False],
      toBeCalled = [0, 0, 0, 0, 0, 0, 0, 0, 0, 0],
      numTimers = 0\<rparr>, [(0, 2)])"
proof -
  have "phase1 25 one_shot =
     \<lparr>prev_millis = [10, 0, 0, 0, 0, 0, 0, 0, 0, 0],
      callbacks = [7, 0, 0, 0, 0, 0, 0, 0, 0, 0],
      delays = [10, 0, 0, 0, 0, 0, 0, 0, 0, 0],
      maxNumRuns = [1, 0, 0, 0, 0, 0, 0, 0, 0, 0],
      numRuns = [1, 0, 0, 0, 0, 0, 0, 0, 0, 0],
      enabled = [True, False, False, False, False, False, False, False, False, False],
      toBeCalled = [2, 0, 0, 0, 0, 0, 0, 0, 0, 0],
      numTimers = 1\<rparr>"
    unfolding one_shot_eq
    by (simp add: phase1_def upt_MAX phase1_slot_def Let_def is_due_def)
  then show ?thesis
    unfolding run_def
    by (simp add: phase2_def upt_MAX phase2_slot_def invoke_def no_calls_def deleteTimer_def)
qed

lemma run_one_shot_26:
  "run no_calls 26
     \<lparr>prev_millis = [10, 0, 0, 0, 0, 0, 0, 0, 0, 0],
      callbacks = [0, 0, 0, 0, 0, 0, 0, 0, 0, 0],
      delays = [0, 0, 0, 0, 0, 0, 0, 0, 0, 0],
      maxNumRuns = [1, 0, 0, 0, 0, 0, 0, 0, 0, 0],
      numRuns = [0, 0, 0, 0, 0, 0, 0, 0, 0, 0],
      enabled = [False, False, False, False, False, False, False, False, False, False],
      toBeCalled = [0, 0, 0, 0, 0, 0, 0, 0, 0, 0],
      numTimers = 0\<rparr> =
     Inr (\<lparr>prev_millis = [10, 0, 0, 0, 0, 0, 0, 0, 0, 0],
      callbacks = [0, 0, 0, 0, 0, 0, 0, 0, 0, 0],
      delays = [0, 0, 0, 0, 0, 0, 0, 0, 0, 0],
      maxNumRuns = [1, 0, 0, 0, 0, 0, 0, 0, 0, 0],
      numRuns = [0, 0, 0, 0, 0, 0, 0, 0, 0, 0],
      enabled = [False, False, False, False, False, False, False, False, False, False],
      toBeCalled = [0, 0, 0, 0, 0, 0, 0, 0, 0, 0],
      numTimers = 0\<rparr>, [])"
proof -
  have "phase1 26
     \<lparr>prev_millis = [10, 0, 0, 0, 0, 0, 0, 0, 0, 0],
      callbacks = [0, 0, 0, 0, 0, 0, 0, 0, 0, 0],
      delays = [0, 0, 0, 0, 0, 0, 0, 0, 0, 0],
      maxNumRuns = [1, 0, 0, 0, 0, 0, 0, 0, 0, 0],
      numRuns = [0, 0, 0, 0, 0, 0, 0, 0, 0, 0],
      enabled = [False, False, False, False, False, False, False, False, False, False],
      toBeCalled = [0, 0, 0, 0, 0, 0, 0, 0, 0, 0],
      numTimers = 0\<rparr> =
     \<lparr>prev_millis = [10, 0, 0, 0, 0, 0, 0, 0, 0, 0],
      callbacks = [0, 0, 0, 0, 0, 0, 0, 0, 0, 0],
      delays = [0, 0, 0, 0, 0, 0, 0, 0, 0, 0],
      maxNumRuns = [1, 0, 0, 0, 0, 0, 0, 0, 0, 0],
      numRuns = [0, 0, 0, 0, 0, 0, 0, 0, 0, 0],
      enabled = [False, False, False, False, False, False, False, False, False, False],
      toBeCalled = [0, 0, 0, 0, 0, 0, 0, 0, 0, 0],
      numTimers = 0\<rparr>"
    by (simp add: phase1_def upt_MAX phase1_slot_def Let_def is_due_def)
  then show ?thesis
    unfolding run_def
    by (simp add: phase2_def upt_MAX phase2_slot_def)
qed

section \<open>Sequences of registrations\<close>

lemma setTimers_Cons:
  "fst (setTimers ((t, d, f, n) # regs) s) = fst (setTimers regs (fst (setTimer t d f n s)))"
  "snd (setTimers ((t, d, f, n) # regs) s) =
     snd (setTimer t d f n s) # snd (setTimers regs (fst (setTimer t d f n s)))"
  by (simp_all split: prod.splits)

lemma numTimers_prefix:
  assumes "count_inv s" and "k \<le> 10" and "\<forall>i<10. callbacks s ! i \<noteq> 0 \<longleftrightarrow> i < k"
  shows "numTimers s = int k"
proof -
  have split: "[0..<10] = [0..<k] @ [k..<10]"
    using assms(2) upt_add_eq_append [of 0 k "10 - k"] by simp
  have "filter (\<lambda>i. callbacks s ! i \<noteq> 0) [0..<10] = filter (\<lambda>i. i < k) [0..<10]"
    using assms(3) by (intro filter_cong) auto
  also have "\<dots> = filter (\<lambda>i. i < k) [0..<k] @ filter (\<lambda>i. i < k) [k..<10]"
    by (subst split) simp
  also have "\<dots> = [0..<k]"
    by (simp add: filter_empty_conv)
  finally have "in_use s = [0..<k]" by (simp add: in_use_def)
  with assms(1) show ?thesis by (simp add: count_inv_def)
qed

lemma findFirstFreeSlot_prefix:
  assumes "count_inv s" and "k < 10" and "\<forall>i<10. callbacks s ! i \<noteq> 0 \<longleftrightarrow> i < k"
  shows "findFirstFreeSlot s = int k"
proof -
  from numTimers_prefix [OF assms(1) _ assms(3)] assms(2) have nt: "numTimers s < MAX_TIMERS"
    by simp
  have "find (\<lambda>i. callbacks s ! i = 0) [0..<10] = Some k"
    unfolding find_Some_iff
    by (rule exI [of _ k]) (use assms(2,3) in auto)
  with nt show ?thesis by (simp add: findFirstFreeSlot_def)
qed

lemma setTimer_prefix:
  assumes "wf_timer s" and "count_inv s" and "k < 10"
    and "\<forall>i<10. callbacks s ! i \<noteq> 0 \<longleftrightarrow> i < k" and "f \<noteq> 0"
  shows "snd (setTimer t d f n s) = int k"
    and "callbacks (fst (setTimer t d f n s)) = (callbacks s)[k := f]"
    and "\<forall>i<10. callbacks (fst (setTimer t d f n s)) ! i \<noteq> 0 \<longleftrightarrow> i < Suc k"
proof -
  note fr = findFirstFreeSlot_prefix [OF assms(2,3,4)]
  show r: "snd (setTimer t d f n s) = int k"
    and cb: "callbacks (fst (setTimer t d f n s)) = (callbacks s)[k := f]"
    using fr assms(5) by (simp_all add: setTimer_def Let_def)
  show "\<forall>i<10. callbacks (fst (setTimer t d f n s)) ! i \<noteq> 0 \<longleftrightarrow> i < Suc k"
    unfolding cb using assms(1,3,4,5)
    by (auto simp: nth_list_update_if wf_timer_def less_Suc_eq)
qed

lemma setTimers_fill:
  "wf_timer s \<Longrightarrow> count_inv s \<Longrightarrow> \<forall>i<10. callbacks s ! i \<noteq> 0 \<longleftrightarrow> i < k \<Longrightarrow>
   k + length regs \<le> 10 \<Longrightarrow> \<forall>g \<in> set regs. reg_callback g \<noteq> 0 \<Longrightarrow>
   wf_timer (fst (setTimers regs s)) \<and> count_inv (fst (setTimers regs s)) \<and>
   snd (setTimers regs s) = map int [k..<k + length regs] \<and>
   (\<forall>i<10. callbacks (fst (setTimers regs s)) ! i \<noteq> 0 \<longleftrightarrow> i < k + length regs) \<and>
   take (k + length regs) (callbacks (fst (setTimers regs s))) =
     take k (callbacks s) @ map reg_callback regs"
proof (induction regs arbitrary: s k)
  case Nil
  then show ?case by simp
next
  case (Cons g regs)
  obtain t d f n where g: "g = (t, d, f, n)" by (cases g)
  define s1 where "s1 = fst (setTimer t d f n s)"
  from Cons.prems(4) have k: "k < 10" and room: "Suc k + length regs \<le> 10" by simp_all
  from Cons.prems(5) g have f: "f \<noteq> 0" and rest: "\<forall>g \<in> set regs. reg_callback g \<noteq> 0"
    by simp_all
  note st = setTimer_prefix [OF Cons.prems(1,2) k Cons.prems(3) f, of t d n]
  have wf1: "wf_timer s1" unfolding s1_def by (rule wf_setTimer [OF Cons.prems(1)])
  have cnt1: "count_inv s1" unfolding s1_def by (rule count_inv_setTimer [OF Cons.prems(1,2)])
  have pre1: "\<forall>i<10. callbacks s1 ! i \<noteq> 0 \<longleftrightarrow> i < Suc k" unfolding s1_def by (rule st(3))
  note ih = Cons.IH [OF wf1 cnt1 pre1 room rest]
  have len: "k < length (callbacks s)" using Cons.prems(1) k by (simp add: wf_timer_def)
  have tk: "take (Suc k) (callbacks s1) = take k (callbacks s) @ [f]"
    unfolding s1_def st(2) using len by (simp add: take_Suc_conv_app_nth)
  have idx: "map int [k..<k + length (g # regs)] = int k # map int [Suc k..<Suc k + length regs]"
    by (subst upt_rec) simp
  show ?case
    unfolding g setTimers_Cons s1_def [symmetric] st(1)
    using ih tk idx g by simp
qed

lemma ctor_empty:
  assumes "wf_timer raw"
  shows "\<forall>i<10. callbacks (SimpleTimer_ctor now raw) ! i \<noteq> 0 \<longleftrightarrow> i < 0"
  using ctor_slots(1) [OF assms] by simp

section \<open>A callback that deletes a timer marked for a call\<close>













lemma due_polls_le: "due_polls p prev ts \<le> length ts"
proof (induction ts arbitrary: prev)
  case Nil
  then show ?case by simp
next
  case (Cons t ts)
  from Cons.IH [of prev] Cons.IH [of "prev + p"] show ?case by simp
qed

lemma bounded_slot_due_polls:
  assumes "inert prog" and "i < 10" and "f \<noteq> 0"
  shows "wf_timer s \<Longrightarrow> count_inv s \<Longrightarrow> callbacks s ! i = f \<Longrightarrow> enabled s ! i \<Longrightarrow>
         delays s ! i = p \<Longrightarrow> maxNumRuns s ! i = int n \<Longrightarrow> numRuns s ! i = int j \<Longrightarrow>
         j < n \<Longrightarrow> count_list (fired lg0) i = j \<Longrightarrow>
         \<exists>s2 lg. runs prog ts (s, lg0) = Inr (s2, lg) \<and>
           count_list (fired lg) i = min n (j + due_polls p (prev_millis s ! i) ts) \<and>
           (count_list (fired lg) i = n \<longleftrightarrow> callbacks s2 ! i = 0)"
proof (induction ts arbitrary: s lg0 j)
  case Nil
  with assms(3) show ?case by simp
next
  case (Cons t ts)
  from Cons.prems(8) have jn: "int j < int n" by simp
  from inert_run_bounded [OF assms(1) Cons.prems(1,2) assms(2) Cons.prems(3) assms(3)
      Cons.prems(4,5,6,7) jn, of t]
  obtain s' lg where r: "run prog t s = Inr (s', lg)" and wf': "wf_timer s'"
    and cnt': "count_inv s'"
    and quiet: "\<not> is_due t s i \<Longrightarrow>
           count_list (fired lg) i = 0 \<and> callbacks s' ! i = f \<and> enabled s' ! i \<and>
           delays s' ! i = p \<and> maxNumRuns s' ! i = int n \<and> numRuns s' ! i = int j \<and>
           prev_millis s' ! i = prev_millis s ! i"
    and fire: "is_due t s i \<Longrightarrow> int (Suc j) < int n \<Longrightarrow>
           count_list (fired lg) i = 1 \<and> callbacks s' ! i = f \<and> enabled s' ! i \<and>
           delays s' ! i = p \<and> maxNumRuns s' ! i = int n \<and> numRuns s' ! i = int (Suc j) \<and>
           prev_millis s' ! i = prev_millis s ! i + p"
    and final: "is_due t s i \<Longrightarrow> int (Suc j) = int n \<Longrightarrow>
           count_list (fired lg) i = 1 \<and> callbacks s' ! i = 0"
    by blast
  have due_iff: "is_due t s i \<longleftrightarrow> p \<le> t - prev_millis s ! i"
    using Cons.prems(5) by (simp add: is_due_def)
  have step: "runs prog (t # ts) (s, lg0) = runs prog ts (s', lg0 @ lg)"
    using r by simp
  consider (quiet) "\<not> is_due t s i" | (fire) "is_due t s i" "Suc j < n"
    | (final) "is_due t s i" "Suc j = n"
    using Cons.prems(8) by linarith
  then show ?case
  proof cases
    case quiet
    note q = \<open>\<not> is_due t s i \<Longrightarrow> _\<close> [OF quiet]
    have c: "count_list (fired (lg0 @ lg)) i = j"
      using q Cons.prems(9) by (simp add: fired_append)
    have dp: "due_polls p (prev_millis s ! i) (t # ts) = due_polls p (prev_millis s' ! i) ts"
      using quiet due_iff q by simp
    from Cons.IH [OF wf' cnt' _ _ _ _ _ Cons.prems(8) c] q
    show ?thesis unfolding step dp by simp
  next
    case fire
    from fire(2) have "int (Suc j) < int n" by simp
    note q = \<open>is_due t s i \<Longrightarrow> int (Suc j) < int n \<Longrightarrow> _\<close> [OF fire(1) this]
    have c: "count_list (fired (lg0 @ lg)) i = Suc j"
      using q Cons.prems(9) by (simp add: fired_append)
    have dp: "due_polls p (prev_millis s ! i) (t # ts) = Suc (due_polls p (prev_millis s' ! i) ts)"
      using fire(1) due_iff q by simp
    from Cons.IH [OF wf' cnt' _ _ _ _ _ fire(2) c] q
    show ?thesis unfolding step dp by simp
  next
    case final
    from final(2) have "int (Suc j) = int n" by simp
    note q = \<open>is_due t s i \<Longrightarrow> int (Suc j) = int n \<Longrightarrow> _\<close> [OF final(1) this]
    have c: "count_list (fired (lg0 @ lg)) i = n"
      using q Cons.prems(9) final(2) by (simp add: fired_append)
    from q have free: "callbacks s' ! i = 0" by simp
    have dp: "min n (j + due_polls p (prev_millis s ! i) (t # ts)) = n"
      using final due_iff by simp
    from freed_slot_runs [OF assms(1,2) wf' cnt' free, of ts "lg0 @ lg"] c
    show ?thesis unfolding step dp by auto
  qed
qed

lemma runs_append:
  "runs prog (ts @ us) sl =
     (case runs prog ts sl of Inl e \<Rightarrow> Inl e | Inr sl' \<Rightarrow> runs prog us sl')"
proof (induction ts arbitrary: sl)
  case Nil
  then show ?case by simp
next
  case (Cons t ts)
  then show ?case by (cases "run prog t (fst sl)") simp_all
qed

lemma runs_inv:
  "runs prog ts (s, lg0) = Inr (s2, lg) \<Longrightarrow> wf_timer s \<Longrightarrow> wf_timer s2"
proof (induction ts arbitrary: s lg0)
  case Nil
  then show ?case by simp
next
  case (Cons t ts)
  from Cons.prems(1) obtain s' l where r: "run prog t s = Inr (s', l)"
    and rs: "runs prog ts (s', lg0 @ l) = Inr (s2, lg)"
    by (cases "run prog t s") auto
  from Cons.IH [OF rs run_inv(1) [OF r Cons.prems(2)]] show ?case .
qed

lemma runs_extend:
  assumes "inert prog" and "wf_timer s" and "runs prog ts (s, []) = Inr (s2, lg)"
  shows "\<exists>s3 l. run prog t s2 = Inr (s3, l) \<and> runs prog (ts @ [t]) (s, []) = Inr (s3, lg @ l) \<and>
           count_list (fired l) i \<le> 1"
proof -
  from runs_inv [OF assms(3,2)] have wf2: "wf_timer s2" .
  from run_total [OF wf2 inert_prog_ok [OF assms(1)], of t]
  obtain s3 l where r: "run prog t s2 = Inr (s3, l)" by blast
  from run_fire_count(1) [OF wf2 r] have c: "count_list (fired l) i \<le> 1" .
  have "runs prog (ts @ [t]) (s, []) = Inr (s3, lg @ l)"
    using assms(3) r by (simp add: runs_append)
  with r c show ?thesis by blast
qed

lemma due_polls_on_schedule: "due_polls 10 0 [10, 21] = 2"
  by simp

lemma late_polls_on_schedule: "late_polls 2 10 0 [10, 21] = 1"
  by (simp add: late_polls_def)

lemma late_polls_late: "late_polls 2 10 0 [100, 100] = 2"
  by (simp add: late_polls_def)

section \<open>Properties of the specification\<close>

subsection \<open>Elapsed time\<close>

text \<open>
  C4. Take a slot in use at a \<open>run()\<close> made \<open>d\<close> ticks, fewer than \<open>2^32\<close>, after
  its baseline, whether or not the counter wrapped in between. The elapsed time of line
  124, the unsigned difference \<open>current_millis - prev_millis[i]\<close>, is \<open>d\<close>; the test of
  line 124 holds exactly when the period is at most \<open>d\<close>; the first loop advances the
  baseline by one period exactly then; it marks the slot for a call exactly when moreover
  the slot is enabled and has no run limit or has runs left; and a \<open>run()\<close> in which no
  callback deletes the timer invokes its callback exactly in that case.
\<close>

theorem elapsed_wraparound_safe:
  assumes "wf_timer s" and "i < 10" and "callbacks s ! i \<noteq> 0"
    and "d < 2 ^ 32" and "current_millis = prev_millis s ! i + of_nat d"
  shows "unat (current_millis - prev_millis s ! i) = d \<and>
         (is_due current_millis s i \<longleftrightarrow> unat (delays s ! i) \<le> d) \<and>
         prev_millis (phase1 current_millis s) ! i =
           (if unat (delays s ! i) \<le> d then prev_millis s ! i + delays s ! i
            else prev_millis s ! i) \<and>
         (decided current_millis s i \<noteq> DEFCALL_DONTRUN \<longleftrightarrow>
            unat (delays s ! i) \<le> d \<and> enabled s ! i \<and>
            (maxNumRuns s ! i = RUN_FOREVER \<or> numRuns s ! i < maxNumRuns s ! i)) \<and>
         (\<forall>s' lg. never_deletes prog i \<and> run prog current_millis s = Inr (s', lg) \<longrightarrow>
            (i \<in> set (fired lg) \<longleftrightarrow>
               unat (delays s ! i) \<le> d \<and> enabled s ! i \<and>
               (maxNumRuns s ! i = RUN_FOREVER \<or> numRuns s ! i < maxNumRuns s ! i)))"
proof -
  have "current_millis - prev_millis s ! i = (of_nat d :: 32 word)"
    using assms(5) by simp
  moreover have "unat (of_nat d :: 32 word) = d"
    using assms(4) by (simp add: unat_of_nat)
  ultimately have el: "unat (current_millis - prev_millis s ! i) = d" by simp
  then have due: "is_due current_millis s i \<longleftrightarrow> unat (delays s ! i) \<le> d"
    by (simp add: is_due_def word_le_nat_alt)
  have pm: "prev_millis (phase1 current_millis s) ! i =
           (if unat (delays s ! i) \<le> d then prev_millis s ! i + delays s ! i
            else prev_millis s ! i)"
    using assms(3) due by (simp add: phase1_prev_millis [OF assms(1,2)])
  have dec: "decided current_millis s i \<noteq> DEFCALL_DONTRUN \<longleftrightarrow>
            unat (delays s ! i) \<le> d \<and> enabled s ! i \<and>
            (maxNumRuns s ! i = RUN_FOREVER \<or> numRuns s ! i < maxNumRuns s ! i)"
    using assms(3) due by (auto simp: decided_eq [OF assms(1,2)])
  have fr: "i \<in> set (fired lg) \<longleftrightarrow>
               unat (delays s ! i) \<le> d \<and> enabled s ! i \<and>
               (maxNumRuns s ! i = RUN_FOREVER \<or> numRuns s ! i < maxNumRuns s ! i)"
    if "never_deletes prog i \<and> run prog current_millis s = Inr (s', lg)" for s' lg
    using run_fired_iff [OF assms(1,2), of prog current_millis s' lg] that dec by blast
  from el due pm dec fr show ?thesis by blast
qed

theorem elapsed_wraparound_safe_witness:
  "wf_timer wrap_timer \<and> (0::nat) < 10 \<and> callbacks wrap_timer ! 0 \<noteq> 0 \<and> (512::nat) < 2 ^ 32 \<and>
   (0x100 :: 32 word) = prev_millis wrap_timer ! 0 + of_nat 512 \<and>
   never_deletes no_calls 0 \<and> \<not> isl (run no_calls 0x100 wrap_timer) \<and>
   unat ((0x100 :: 32 word) - prev_millis wrap_timer ! 0) = 512 \<and>
   is_due 0x100 wrap_timer 0 \<and>
   prev_millis (phase1 0x100 wrap_timer) ! 0 = 244 \<and>
   decided 0x100 wrap_timer 0 \<noteq> DEFCALL_DONTRUN \<and>
   0 \<in> set (fired (snd (projr (run no_calls 0x100 wrap_timer))))"
proof -
  have h: "(0::nat) < 10" "callbacks wrap_timer ! 0 \<noteq> 0" "(512::nat) < 2 ^ 32"
    "(0x100 :: 32 word) = prev_millis wrap_timer ! 0 + of_nat 512"
    and v: "unat (delays wrap_timer ! 0) \<le> 512" "enabled wrap_timer ! 0"
      "maxNumRuns wrap_timer ! 0 = RUN_FOREVER"
      "prev_millis wrap_timer ! 0 + delays wrap_timer ! 0 = 244"
    unfolding wrap_timer_eq by simp_all
  have nd: "never_deletes no_calls 0" by (rule inert_never_deletes [OF inert_no_calls])
  from run_total [OF wf_wrap_timer inert_prog_ok [OF inert_no_calls], of "0x100"]
  obtain s' lg where r: "run no_calls 0x100 wrap_timer = Inr (s', lg)" by blast
  note t = elapsed_wraparound_safe [OF wf_wrap_timer h, of no_calls]
  from t have el: "unat ((0x100 :: 32 word) - prev_millis wrap_timer ! 0) = 512" by blast
  from t v(1) have due: "is_due 0x100 wrap_timer 0" by blast
  from t have "prev_millis (phase1 0x100 wrap_timer) ! 0 =
           (if unat (delays wrap_timer ! 0) \<le> 512
            then prev_millis wrap_timer ! 0 + delays wrap_timer ! 0
            else prev_millis wrap_timer ! 0)"
    by blast
  with v(1,4) have pm: "prev_millis (phase1 0x100 wrap_timer) ! 0 = 244" by simp
  from t v(1,2,3) have dec: "decided 0x100 wrap_timer 0 \<noteq> DEFCALL_DONTRUN" by blast
  from t nd r v(1,2,3) have "0 \<in> set (fired lg)" by blast
  with r have fr: "0 \<in> set (fired (snd (projr (run no_calls 0x100 wrap_timer))))"
    and ret: "\<not> isl (run no_calls 0x100 wrap_timer)"
    by simp_all
  show ?thesis
    by (intro conjI) (fact wf_wrap_timer h nd ret el due pm dec fr)+
qed

subsection \<open>Registration\<close>

text \<open>
  C9. On every object a program can hold, when \<open>setTimer\<close> succeeds the slot it returns
  was free and now holds the period, the callback and the run limit given, is enabled,
  has a run count of \<open>0\<close> and the current tick as its baseline, and \<open>numTimers\<close> is one
  more than before. \<open>setTimer\<close> does not write the run count: it is \<open>0\<close> because the
  constructor and \<open>deleteTimer\<close> leave \<open>0\<close> in every free slot.
\<close>

theorem setTimer_success:
  assumes "reachable prog s"
    and "setTimer current_millis d f n s = (s', r)" and "r \<noteq> -1"
  shows "0 \<le> r \<and> r < MAX_TIMERS \<and> callbacks s ! nat r = 0 \<and>
         delays s' ! nat r = d \<and> callbacks s' ! nat r = f \<and> maxNumRuns s' ! nat r = n \<and>
         enabled s' ! nat r \<and> numRuns s' ! nat r = 0 \<and> prev_millis s' ! nat r = current_millis \<and>
         numTimers s' = numTimers s + 1"
proof -
  from reachable_invariants [OF assms(1)] have wf: "wf_timer s" and frz: "free_runs_zero s"
    by simp_all
  from assms(2,3) have r: "findFirstFreeSlot s = r" and nn: "0 \<le> r" and f: "f \<noteq> 0"
    by (auto simp: setTimer_def Let_def split: if_splits)
  from findFirstFreeSlot_free [OF r nn]
  have lt: "r < MAX_TIMERS" and free: "callbacks s ! nat r = 0" by simp_all
  from lt nn have idx: "nat r < 10" by simp
  with free frz have runs: "numRuns s ! nat r = 0"
    by (simp add: free_runs_zero_iff)
  from assms(2) r nn f have s': "s' = s\<lparr>delays := (delays s)[nat r := d],
              callbacks := (callbacks s)[nat r := f],
              maxNumRuns := (maxNumRuns s)[nat r := n],
              enabled := (enabled s)[nat r := True],
              prev_millis := (prev_millis s)[nat r := current_millis],
              numTimers := numTimers s + 1\<rparr>"
    by (auto simp: setTimer_def Let_def)
  show ?thesis
    using nn lt free runs idx wf by (simp add: s' wf_timer_def)
qed

theorem setTimer_success_witness:
  "reachable no_calls raw0 \<and> snd (setTimer 5 1000 7 3 raw0) = 0 \<and>
   delays (fst (setTimer 5 1000 7 3 raw0)) ! 0 = 1000 \<and>
   callbacks (fst (setTimer 5 1000 7 3 raw0)) ! 0 = 7 \<and>
   maxNumRuns (fst (setTimer 5 1000 7 3 raw0)) ! 0 = 3 \<and>
   enabled (fst (setTimer 5 1000 7 3 raw0)) ! 0 \<and>
   numRuns (fst (setTimer 5 1000 7 3 raw0)) ! 0 = 0 \<and>
   prev_millis (fst (setTimer 5 1000 7 3 raw0)) ! 0 = 5 \<and>
   numTimers (fst (setTimer 5 1000 7 3 raw0)) = 1"
  using setTimer_success [where prog = no_calls and s = raw0 and current_millis = 5
      and d = 1000 and f = 7 and n = 3 and s' = "fst (setTimer 5 1000 7 3 raw0)"
      and r = "snd (setTimer 5 1000 7 3 raw0)"] reachable_raw0 [of no_calls]
  by (simp add: setTimer_raw0)

text \<open>
  C6. \<open>setTimer\<close> returns the lowest free slot, puts the callback into that slot alone
  and adds one to \<open>numTimers\<close>; it succeeds whenever a slot is free and the callback is
  not null. Ten registrations with callbacks that are not null on a new object return the
  indices 0 to 9 in order and leave the ten callbacks in the ten slots; the eleventh
  \<open>setTimer\<close>, as any \<open>setTimer\<close> on an object with every slot in use, returns \<open>-1\<close> and
  leaves the object as it was. Deleting one timer of a full object frees that slot alone,
  and the next \<open>setTimer\<close> returns that index and puts its callback there, which makes the
  object full again.
\<close>

theorem registration_capacity:
  assumes "wf_timer s" and "count_inv s"
  shows "(\<forall>s' r. setTimer now d f n s = (s', r) \<and> 0 \<le> r \<longrightarrow>
            r < MAX_TIMERS \<and> callbacks s ! nat r = 0 \<and> (\<forall>j < nat r. callbacks s ! j \<noteq> 0) \<and>
            callbacks s' = (callbacks s)[nat r := f] \<and> f \<noteq> 0 \<and>
            numTimers s' = numTimers s + 1 \<and> wf_timer s' \<and> count_inv s') \<and>
         ((\<exists>i<10. callbacks s ! i = 0) \<and> f \<noteq> 0 \<longrightarrow> 0 \<le> snd (setTimer now d f n s)) \<and>
         ((\<forall>i<10. callbacks s ! i \<noteq> 0) \<longrightarrow> setTimer now d f n s = (s, -1)) \<and>
         ((\<forall>i<10. callbacks s ! i \<noteq> 0) \<and> 0 \<le> k \<and> k < MAX_TIMERS \<and> f \<noteq> 0 \<longrightarrow>
            (\<exists>s1 s2. deleteTimer k s = Inr s1 \<and> numTimers s1 = MAX_TIMERS - 1 \<and>
                  (\<forall>i<10. callbacks s1 ! i = 0 \<longleftrightarrow> i = nat k) \<and>
                  setTimer now d f n s1 = (s2, k) \<and> callbacks s2 ! nat k = f \<and>
                  (\<forall>i<10. callbacks s2 ! i \<noteq> 0) \<and> numTimers s2 = MAX_TIMERS)) \<and>
         (wf_timer raw \<and> length regs = nat MAX_TIMERS \<and> (\<forall>g \<in> set regs. reg_callback g \<noteq> 0) \<longrightarrow>
            snd (setTimers regs (SimpleTimer_ctor t0 raw)) = map int [0..<nat MAX_TIMERS] \<and>
            callbacks (fst (setTimers regs (SimpleTimer_ctor t0 raw))) = map reg_callback regs \<and>
            numTimers (fst (setTimers regs (SimpleTimer_ctor t0 raw))) = MAX_TIMERS \<and>
            setTimer now d f n (fst (setTimers regs (SimpleTimer_ctor t0 raw))) =
              (fst (setTimers regs (SimpleTimer_ctor t0 raw)), -1))"
proof -
  have lowest: "r < MAX_TIMERS \<and> callbacks s ! nat r = 0 \<and> (\<forall>j < nat r. callbacks s ! j \<noteq> 0) \<and>
            callbacks s' = (callbacks s)[nat r := f] \<and> f \<noteq> 0 \<and>
            numTimers s' = numTimers s + 1 \<and> wf_timer s' \<and> count_inv s'"
    if a: "setTimer now d f n s = (s', r) \<and> 0 \<le> r" for s' r
  proof -
    from a have fr: "findFirstFreeSlot s = r" and f: "f \<noteq> 0"
      by (auto simp: setTimer_def Let_def split: if_splits)
    from a have s': "s' = fst (setTimer now d f n s)" by simp
    have "callbacks s' = (callbacks s)[nat r := f]" and "numTimers s' = numTimers s + 1"
      unfolding s' using fr f a by (simp_all add: setTimer_def Let_def)
    moreover have "wf_timer s'" unfolding s' by (rule wf_setTimer [OF assms(1)])
    moreover have "count_inv s'" unfolding s' by (rule count_inv_setTimer [OF assms])
    ultimately show ?thesis using findFirstFreeSlot_free [OF fr] a f by simp
  qed
  have succeeds: "0 \<le> snd (setTimer now d f n s)"
    if a: "(\<exists>i<10. callbacks s ! i = 0) \<and> f \<noteq> 0"
  proof -
    from a obtain i where i: "i < 10" "callbacks s ! i = 0" and f: "f \<noteq> 0" by auto
    from numTimers_room [OF assms(2) i] have "0 \<le> findFirstFreeSlot s"
      using findFirstFreeSlot_some i by simp
    with f show ?thesis by (simp add: setTimer_def Let_def)
  qed
  have fails: "setTimer now d f n s = (s, -1)" if "\<forall>i<10. callbacks s ! i \<noteq> 0"
    using that by (simp add: setTimer_def findFirstFreeSlot_full)
  have reuse: "\<exists>s1 s2. deleteTimer k s = Inr s1 \<and> numTimers s1 = MAX_TIMERS - 1 \<and>
                  (\<forall>i<10. callbacks s1 ! i = 0 \<longleftrightarrow> i = nat k) \<and>
                  setTimer now d f n s1 = (s2, k) \<and> callbacks s2 ! nat k = f \<and>
                  (\<forall>i<10. callbacks s2 ! i \<noteq> 0) \<and> numTimers s2 = MAX_TIMERS"
    if a: "(\<forall>i<10. callbacks s ! i \<noteq> 0) \<and> 0 \<le> k \<and> k < MAX_TIMERS \<and> f \<noteq> 0"
  proof -
    define s1 where "s1 = s\<lparr>callbacks := (callbacks s)[nat k := 0],
               enabled := (enabled s)[nat k := False],
               toBeCalled := (toBeCalled s)[nat k := DEFCALL_DONTRUN],
               delays := (delays s)[nat k := 0],
               numRuns := (numRuns s)[nat k := 0],
               numTimers := numTimers s - 1\<rparr>"
    from a have k: "nat k < 10" and full: "\<forall>i<10. callbacks s ! i \<noteq> 0" and f: "f \<noteq> 0"
      by auto
    from numTimers_full [OF assms(2) full] have nt: "numTimers s = 10" .
    have del: "deleteTimer k s = Inr s1"
      using a k nt by (simp add: deleteTimer_def s1_def)
    have nt1: "numTimers s1 = MAX_TIMERS - 1" using nt by (simp add: s1_def)
    have free: "\<forall>i<10. callbacks s1 ! i = 0 \<longleftrightarrow> i = nat k"
      using full k assms(1) by (auto simp: s1_def wf_timer_def nth_list_update)
    have below: "callbacks s1 ! j \<noteq> 0" if "j < nat k" for j
    proof -
      from that k have "j < 10" and "j \<noteq> nat k" by simp_all
      with free show ?thesis by blast
    qed
    have at: "callbacks s1 ! nat k = 0" using free k by blast
    have "find (\<lambda>i. callbacks s1 ! i = 0) [0..<10] = Some (nat k)"
      unfolding find_Some_iff
      by (rule exI [of _ "nat k"]) (use below at k in simp)
    then have fr: "findFirstFreeSlot s1 = k"
      using nt1 a by (simp add: findFirstFreeSlot_def)
    define s2 where "s2 = fst (setTimer now d f n s1)"
    have st: "setTimer now d f n s1 = (s2, k)"
      using fr a by (simp add: s2_def setTimer_def Let_def)
    have cb2: "callbacks s2 = (callbacks s1)[nat k := f]" and nt2: "numTimers s2 = MAX_TIMERS"
      using fr a nt1 by (simp_all add: s2_def setTimer_def Let_def)
    have len1: "length (callbacks s1) = 10" using assms(1) by (simp add: s1_def wf_timer_def)
    have at2: "callbacks s2 ! nat k = f" unfolding cb2 using k len1 by simp
    have full2: "\<forall>i<10. callbacks s2 ! i \<noteq> 0"
      unfolding cb2 using free f k len1 by (auto simp: nth_list_update_if)
    from del nt1 free st at2 full2 nt2 show ?thesis by blast
  qed
  have fill: "snd (setTimers regs (SimpleTimer_ctor t0 raw)) = map int [0..<nat MAX_TIMERS] \<and>
            callbacks (fst (setTimers regs (SimpleTimer_ctor t0 raw))) = map reg_callback regs \<and>
            numTimers (fst (setTimers regs (SimpleTimer_ctor t0 raw))) = MAX_TIMERS \<and>
            setTimer now d f n (fst (setTimers regs (SimpleTimer_ctor t0 raw))) =
              (fst (setTimers regs (SimpleTimer_ctor t0 raw)), -1)"
    if a: "wf_timer raw \<and> length regs = nat MAX_TIMERS \<and> (\<forall>g \<in> set regs. reg_callback g \<noteq> 0)"
  proof -
    define s0 where "s0 = SimpleTimer_ctor t0 raw"
    define s10 where "s10 = fst (setTimers regs s0)"
    from a have raw: "wf_timer raw" and len: "length regs = 10"
      and cbs: "\<forall>g \<in> set regs. reg_callback g \<noteq> 0"
      by simp_all
    have wf0: "wf_timer s0" and cnt0: "count_inv s0"
      and empty: "\<forall>i<10. callbacks s0 ! i \<noteq> 0 \<longleftrightarrow> i < 0"
      unfolding s0_def by (rule wf_ctor [OF raw] count_inv_ctor [OF raw] ctor_empty [OF raw])+
    from len have room: "0 + length regs \<le> 10" by simp
    from setTimers_fill [OF wf0 cnt0 empty room cbs]
    have wf10: "wf_timer s10" and cnt10: "count_inv s10"
      and rs: "snd (setTimers regs s0) = map int [0..<10]"
      and full: "\<forall>i<10. callbacks s10 ! i \<noteq> 0"
      and tk: "take 10 (callbacks s10) = map reg_callback regs"
      by (simp_all add: len s10_def)
    from wf10 have "length (callbacks s10) = 10" by (simp add: wf_timer_def)
    with tk have cb: "callbacks s10 = map reg_callback regs" by simp
    from numTimers_full [OF cnt10 full] have nt: "numTimers s10 = MAX_TIMERS" .
    have "setTimer now d f n s10 = (s10, -1)"
      using full by (simp add: setTimer_def findFirstFreeSlot_full)
    with rs cb nt show ?thesis unfolding s10_def s0_def by simp
  qed
  from lowest succeeds fails reuse fill show ?thesis by blast
qed

theorem registration_capacity_witness:
  "wf_timer full10 \<and> count_inv full10 \<and> setTimer 0 5 1 0 full10 = (full10, -1) \<and>
   snd (setTimer 0 5 1 0 (projr (deleteTimer 4 full10))) = 4 \<and>
   callbacks (fst (setTimer 0 5 1 0 (projr (deleteTimer 4 full10)))) ! 4 = 1 \<and>
   wf_timer raw0 \<and> count_inv raw0 \<and> snd (setTimer 5 1000 7 3 raw0) = 0 \<and>
   callbacks (fst (setTimer 5 1000 7 3 raw0)) = (callbacks raw0)[0 := 7] \<and>
   length ten_regs = nat MAX_TIMERS \<and>
   snd (setTimers ten_regs (SimpleTimer_ctor 0 raw0)) = map int [0..<nat MAX_TIMERS] \<and>
   callbacks (fst (setTimers ten_regs (SimpleTimer_ctor 0 raw0))) = map reg_callback ten_regs \<and>
   snd (setTimer 0 5 1 0 (fst (setTimers ten_regs (SimpleTimer_ctor 0 raw0)))) = -1"
proof -
  have full: "\<forall>i<10. callbacks full10 ! i \<noteq> 0"
    by (simp add: full10_def All_less_Suc numeral_eq_Suc)
  have four: "(0::int) \<le> 4 \<and> (4::int) < MAX_TIMERS \<and> (1::nat) \<noteq> 0" by simp
  note t1 = registration_capacity [OF wf_full10 count_inv_full10, of 0 5 1 0 4]
  from t1 full have a: "setTimer 0 5 1 0 full10 = (full10, -1)" by blast
  from t1 full four obtain s1 s2 where d4: "deleteTimer 4 full10 = Inr s1"
    and r4: "setTimer 0 5 1 0 s1 = (s2, 4)" and c4: "callbacks s2 ! nat 4 = 1"
    by blast
  from d4 r4 c4 have b: "snd (setTimer 0 5 1 0 (projr (deleteTimer 4 full10))) = 4"
    and b': "callbacks (fst (setTimer 0 5 1 0 (projr (deleteTimer 4 full10)))) ! 4 = 1"
    by simp_all
  have len: "length ten_regs = nat MAX_TIMERS" by (simp add: ten_regs_def)
  have cbs: "\<forall>g \<in> set ten_regs. reg_callback g \<noteq> 0" by (auto simp: ten_regs_def)
  note t2 = registration_capacity [OF wf_raw0 count_inv_raw0, of 5 1000 7 3 _ raw0 ten_regs 0]
  have st: "setTimer 5 1000 7 3 raw0 = (fst (setTimer 5 1000 7 3 raw0), 0) \<and> (0::int) \<le> 0"
    by (simp add: setTimer_raw0)
  from t2 st have c: "callbacks (fst (setTimer 5 1000 7 3 raw0)) = (callbacks raw0)[nat 0 := 7]"
    by blast
  from t2 wf_raw0 len cbs
  have e: "snd (setTimers ten_regs (SimpleTimer_ctor 0 raw0)) = map int [0..<nat MAX_TIMERS]"
    and f: "callbacks (fst (setTimers ten_regs (SimpleTimer_ctor 0 raw0))) =
        map reg_callback ten_regs"
    by blast+
  note t3 = registration_capacity [OF wf_raw0 count_inv_raw0, of 0 5 1 0 _ raw0 ten_regs 0]
  from t3 wf_raw0 len cbs
  have "setTimer 0 5 1 0 (fst (setTimers ten_regs (SimpleTimer_ctor 0 raw0))) =
      (fst (setTimers ten_regs (SimpleTimer_ctor 0 raw0)), -1)"
    by blast
  then have g: "snd (setTimer 0 5 1 0 (fst (setTimers ten_regs (SimpleTimer_ctor 0 raw0)))) = -1"
    by simp
  have z: "snd (setTimer 5 1000 7 3 raw0) = 0" by (simp add: setTimer_raw0)
  from c have c': "callbacks (fst (setTimer 5 1000 7 3 raw0)) = (callbacks raw0)[0 := 7]"
    by simp
  show ?thesis
    by (intro conjI) (fact wf_full10 count_inv_full10 a b b' wf_raw0 count_inv_raw0 z c' len e f g)+
qed

subsection \<open>Index-addressed operations\<close>

text \<open>
  C7, as the claim states it, fails: \<open>enable\<close> on the free slot 3 of a newly constructed
  object changes the object.
\<close>

theorem control_ops_free_slot_counterexample:
  "callbacks (SimpleTimer_ctor 0 raw0) ! 3 = 0 \<and>
   enable 3 (SimpleTimer_ctor 0 raw0) \<noteq> Inr (SimpleTimer_ctor 0 raw0)"
  unfolding ctor_raw0 by (simp add: enable_def raw0_def)

text \<open>
  C7, amended. With an index of \<open>MAX_TIMERS\<close> or more, \<open>deleteTimer\<close>, \<open>restartTimer\<close>,
  \<open>enable\<close>, \<open>disable\<close> and \<open>toggle\<close> return the object as it was and \<open>isEnabled\<close>
  returns false. With the index \<open>i\<close> of a free slot none of them faults: \<open>deleteTimer\<close>
  returns the object as it was; \<open>restartTimer\<close> returns it with \<open>prev_millis[i]\<close> set to
  the current tick and nothing else changed; \<open>enable\<close>, \<open>disable\<close> and \<open>toggle\<close> return
  it with \<open>enabled[i]\<close> set to true, to false and to its negation, and nothing else
  changed. So every other slot is as it was, slot \<open>i\<close> stays free and \<open>numTimers\<close> is as
  before.
\<close>

theorem control_ops_lenient:
  "(MAX_TIMERS \<le> i \<longrightarrow>
      deleteTimer i s = Inr s \<and> restartTimer now i s = Inr s \<and> enable i s = Inr s \<and>
      disable i s = Inr s \<and> toggle i s = Inr s \<and> isEnabled i s = Inr False) \<and>
   (0 \<le> i \<and> i < MAX_TIMERS \<and> callbacks s ! nat i = 0 \<longrightarrow>
      deleteTimer i s = Inr s \<and>
      restartTimer now i s = Inr (s\<lparr>prev_millis := (prev_millis s)[nat i := now]\<rparr>) \<and>
      enable i s = Inr (s\<lparr>enabled := (enabled s)[nat i := True]\<rparr>) \<and>
      disable i s = Inr (s\<lparr>enabled := (enabled s)[nat i := False]\<rparr>) \<and>
      toggle i s = Inr (s\<lparr>enabled := (enabled s)[nat i := \<not> enabled s ! nat i]\<rparr>) \<and>
      (\<forall>s' j. (restartTimer now i s = Inr s' \<or> enable i s = Inr s' \<or> disable i s = Inr s' \<or>
                toggle i s = Inr s') \<longrightarrow>
         callbacks s' = callbacks s \<and> numTimers s' = numTimers s \<and> delays s' = delays s \<and>
         maxNumRuns s' = maxNumRuns s \<and> numRuns s' = numRuns s \<and>
         toBeCalled s' = toBeCalled s \<and>
         (j \<noteq> nat i \<longrightarrow> prev_millis s' ! j = prev_millis s ! j \<and>
                          enabled s' ! j = enabled s ! j)))"
proof -
  have high: "deleteTimer i s = Inr s \<and> restartTimer now i s = Inr s \<and> enable i s = Inr s \<and>
      disable i s = Inr s \<and> toggle i s = Inr s \<and> isEnabled i s = Inr False"
    if "MAX_TIMERS \<le> i"
    using that
    by (simp add: deleteTimer_def restartTimer_def enable_def disable_def toggle_def
        isEnabled_def)
  have free: "deleteTimer i s = Inr s \<and>
      restartTimer now i s = Inr (s\<lparr>prev_millis := (prev_millis s)[nat i := now]\<rparr>) \<and>
      enable i s = Inr (s\<lparr>enabled := (enabled s)[nat i := True]\<rparr>) \<and>
      disable i s = Inr (s\<lparr>enabled := (enabled s)[nat i := False]\<rparr>) \<and>
      toggle i s = Inr (s\<lparr>enabled := (enabled s)[nat i := \<not> enabled s ! nat i]\<rparr>) \<and>
      (\<forall>s' j. (restartTimer now i s = Inr s' \<or> enable i s = Inr s' \<or> disable i s = Inr s' \<or>
                toggle i s = Inr s') \<longrightarrow>
         callbacks s' = callbacks s \<and> numTimers s' = numTimers s \<and> delays s' = delays s \<and>
         maxNumRuns s' = maxNumRuns s \<and> numRuns s' = numRuns s \<and>
         toBeCalled s' = toBeCalled s \<and>
         (j \<noteq> nat i \<longrightarrow> prev_millis s' ! j = prev_millis s ! j \<and>
                          enabled s' ! j = enabled s ! j))"
    if a: "0 \<le> i \<and> i < MAX_TIMERS \<and> callbacks s ! nat i = 0"
  proof -
    from a have del: "deleteTimer i s = Inr s" by (simp add: deleteTimer_def)
    from a have r: "restartTimer now i s = Inr (s\<lparr>prev_millis := (prev_millis s)[nat i := now]\<rparr>)"
      by (simp add: restartTimer_def)
    from a have e: "enable i s = Inr (s\<lparr>enabled := (enabled s)[nat i := True]\<rparr>)"
      by (simp add: enable_def)
    from a have d: "disable i s = Inr (s\<lparr>enabled := (enabled s)[nat i := False]\<rparr>)"
      by (simp add: disable_def)
    from a have t: "toggle i s = Inr (s\<lparr>enabled := (enabled s)[nat i := \<not> enabled s ! nat i]\<rparr>)"
      by (simp add: toggle_def)
    have rest: "\<forall>s' j. (restartTimer now i s = Inr s' \<or> enable i s = Inr s' \<or>
                disable i s = Inr s' \<or> toggle i s = Inr s') \<longrightarrow>
         callbacks s' = callbacks s \<and> numTimers s' = numTimers s \<and> delays s' = delays s \<and>
         maxNumRuns s' = maxNumRuns s \<and> numRuns s' = numRuns s \<and>
         toBeCalled s' = toBeCalled s \<and>
         (j \<noteq> nat i \<longrightarrow> prev_millis s' ! j = prev_millis s ! j \<and>
                          enabled s' ! j = enabled s ! j)"
      unfolding r e d t by auto
    from del r e d t rest show ?thesis by (intro conjI)
  qed
  show ?thesis
    by (rule conjI) (rule impI, erule high, rule impI, erule free)
qed

theorem control_ops_lenient_witness:
  "(MAX_TIMERS \<le> 10 \<and> deleteTimer 10 full10 = Inr full10 \<and> toggle 10 full10 = Inr full10 \<and>
    isEnabled 10 full10 = Inr False) \<and>
   ((0::int) \<le> 3 \<and> 3 < MAX_TIMERS \<and> callbacks raw0 ! nat 3 = 0 \<and>
    deleteTimer 3 raw0 = Inr raw0 \<and>
    toggle 3 raw0 = Inr (raw0\<lparr>enabled := (enabled raw0)[nat 3 := \<not> enabled raw0 ! nat 3]\<rparr>) \<and>
    restartTimer 7 3 raw0 = Inr (raw0\<lparr>prev_millis := (prev_millis raw0)[nat 3 := 7]\<rparr>))"
proof -
  have free: "callbacks raw0 ! nat 3 = 0" by (simp add: raw0_def)
  have ten: "MAX_TIMERS \<le> 10" by simp
  from control_ops_lenient [of 10 full10 0, THEN conjunct1, rule_format, OF ten]
  have hi: "deleteTimer 10 full10 = Inr full10 \<and> toggle 10 full10 = Inr full10 \<and>
    isEnabled 10 full10 = Inr False"
    by blast
  have three: "(0::int) \<le> 3 \<and> 3 < MAX_TIMERS \<and> callbacks raw0 ! nat 3 = 0"
    using free by simp
  from control_ops_lenient [of 3 raw0 7, THEN conjunct2, rule_format, OF three]
  have lo: "deleteTimer 3 raw0 = Inr raw0 \<and>
    toggle 3 raw0 = Inr (raw0\<lparr>enabled := (enabled raw0)[nat 3 := \<not> enabled raw0 ! nat 3]\<rparr>) \<and>
    restartTimer 7 3 raw0 = Inr (raw0\<lparr>prev_millis := (prev_millis raw0)[nat 3 := 7]\<rparr>)"
    by blast
  from hi lo three show ?thesis by blast
qed

subsection \<open>The first and the second loop of run()\<close>




subsection \<open>The counter of timers in use\<close>

text \<open>
  C5 does not hold of the code. \<open>deleteTimer\<close>, \<open>restartTimer\<close>, \<open>enable\<close>, \<open>disable\<close>
  and \<open>toggle\<close> take an \<open>int\<close> and test it against \<open>MAX_TIMERS\<close> only, so the index
  \<open>-1\<close> passes the test and reaches the arrays. On \<open>two_timers\<close>, where the invariant
  holds and \<open>numTimers\<close> is not \<open>0\<close>, each of the five calls with \<open>-1\<close> is an access
  outside the arrays, after which the source guarantees nothing: \<open>deleteTimer(-1)\<close> reads
  \<open>callbacks[-1]\<close> and, if it finds a word that is not zero there, decrements
  \<open>numTimers\<close> without freeing any slot.
\<close>

theorem negative_index_escapes_guard:
  "wf_timer two_timers \<and> count_inv two_timers \<and> numTimers two_timers \<noteq> 0 \<and>
   \<not> MAX_TIMERS \<le> -1 \<and>
   deleteTimer (-1) two_timers = Inl OutOfBounds \<and>
   restartTimer 10 (-1) two_timers = Inl OutOfBounds \<and>
   enable (-1) two_timers = Inl OutOfBounds \<and>
   disable (-1) two_timers = Inl OutOfBounds \<and>
   toggle (-1) two_timers = Inl OutOfBounds"
proof -
  have "numTimers two_timers \<noteq> 0" unfolding two_timers_eq by simp
  then show ?thesis
    using wf_two_timers count_inv_two_timers
    by (simp add: deleteTimer_def restartTimer_def enable_def disable_def toggle_def)
qed

text \<open>
  With indices that are not negative the invariant is kept. The constructor establishes,
  and every call that returns (\<open>setTimer\<close>, \<open>setInterval\<close>, \<open>setTimeout\<close>, and the five
  above) and every \<open>run()\<close> that returns, with whatever calls its callbacks make,
  preserves: \<open>numTimers\<close> is the number of slots with a callback, and at most
  \<open>MAX_TIMERS\<close>. A call with an index that is not negative returns, and so does \<open>run()\<close>
  when the callbacks make such calls only.
\<close>

lemma count_inv_preserved:
  assumes "wf_timer raw" and "wf_timer s" and "count_inv s"
  shows "wf_timer (SimpleTimer_ctor now raw) \<and> count_inv (SimpleTimer_ctor now raw) \<and>
         (\<forall>s'. exec_call now c s = Inr s' \<longrightarrow> wf_timer s' \<and> count_inv s') \<and>
         (call_ok c \<longrightarrow> (\<exists>s'. exec_call now c s = Inr s')) \<and>
         (\<forall>s' lg. run prog now s = Inr (s', lg) \<longrightarrow> wf_timer s' \<and> count_inv s') \<and>
         (prog_ok prog \<longrightarrow> (\<exists>s' lg. run prog now s = Inr (s', lg)))"
proof -
  have "wf_timer s' \<and> count_inv s'" if "exec_call now c s = Inr s'" for s'
    using wf_exec_call [OF assms(2) that] count_inv_exec_call [OF assms(2,3) that] by simp
  moreover have "wf_timer s' \<and> count_inv s'" if "run prog now s = Inr (s', lg)" for s' lg
    using run_inv [OF that assms(2)] assms(3) by simp
  ultimately show ?thesis
    using wf_ctor [OF assms(1)] count_inv_ctor [OF assms(1)] exec_call_total [of c now s]
      run_total [OF assms(2), of prog now]
    by blast
qed

subsection \<open>One call per slot and run()\<close>

text \<open>
  C3, as the claim states it, fails. The timer of \<open>one_shot\<close> is in use and enabled, has
  period 10, and at tick 25 two periods have elapsed since its baseline. The \<open>run()\<close> at
  tick 25 invokes its callback and, this being its only run, frees the slot; the
  \<open>run()\<close> at tick 26 invokes nothing.
\<close>

theorem last_run_not_due_again_counterexample:
  "callbacks one_shot ! 0 \<noteq> 0 \<and> enabled one_shot ! 0 \<and> 0 < unat (delays one_shot ! 0) \<and>
   2 * unat (delays one_shot ! 0) \<le> unat (25 - prev_millis one_shot ! 0) \<and>
   fired (snd (projr (run no_calls 25 one_shot))) = [0] \<and>
   callbacks (fst (projr (run no_calls 25 one_shot))) ! 0 = 0 \<and>
   fired (snd (projr (run no_calls 26 (fst (projr (run no_calls 25 one_shot)))))) = []"
  by (simp add: run_one_shot_25 run_one_shot_26 fired_def) (simp add: one_shot_eq)

text \<open>
  C3, amended. Take a slot in use, enabled, with a period \<open>p > 0\<close>, at a \<open>run()\<close>
  where \<open>k\<close> periods or more, \<open>k > 1\<close>, have elapsed since its baseline. Whatever the
  callbacks do, the slot's callback is invoked at most once in that \<open>run()\<close>, and the
  first loop advances the baseline by \<open>p\<close>. When the callbacks leave the timer object
  alone, \<open>run()\<close> returns, the callback is invoked exactly once if the slot has no run
  limit or has runs left, and the baseline is \<open>p\<close> later than before, so that the elapsed
  time at the same tick is still \<open>p\<close> or more. If this was the last run of a slot with a
  run limit, the slot is free afterwards and no later \<open>run()\<close> invokes anything for it.
  Otherwise the slot is still in use and enabled, with the same period and run limit, and
  at every later tick within one wrap of the old baseline the test of line 124 holds and
  the next \<open>run()\<close> invokes the callback once more, provided the slot has no run limit
  or still has runs left.
\<close>

theorem no_catch_up_burst:
  assumes "wf_timer s" and "count_inv s" and "i < 10" and "callbacks s ! i \<noteq> 0"
    and "enabled s ! i" and "0 < unat (delays s ! i)" and "1 < k"
    and "k * unat (delays s ! i) \<le> unat (now - prev_millis s ! i)"
  shows "(\<forall>s' lg. run prog now s = Inr (s', lg) \<longrightarrow> count_list (fired lg) i \<le> 1) \<and>
         prev_millis (phase1 now s) ! i = prev_millis s ! i + delays s ! i \<and>
         (inert prog \<longrightarrow>
            (\<exists>s' lg. run prog now s = Inr (s', lg) \<and>
               count_list (fired lg) i =
                 (if maxNumRuns s ! i = RUN_FOREVER \<or> numRuns s ! i < maxNumRuns s ! i
                  then 1 else 0) \<and>
               prev_millis s' ! i = prev_millis s ! i + delays s ! i \<and>
               unat (now - prev_millis s' ! i) =
                 unat (now - prev_millis s ! i) - unat (delays s ! i) \<and>
               unat (delays s ! i) \<le> unat (now - prev_millis s' ! i) \<and>
               (maxNumRuns s ! i \<noteq> RUN_FOREVER \<and> numRuns s ! i < maxNumRuns s ! i \<and>
                maxNumRuns s ! i \<le> numRuns s ! i + 1 \<longrightarrow>
                  callbacks s' ! i = 0 \<and>
                  (\<forall>t s'' lg'. run prog t s' = Inr (s'', lg') \<longrightarrow> i \<notin> set (fired lg'))) \<and>
               (\<not> (maxNumRuns s ! i \<noteq> RUN_FOREVER \<and> numRuns s ! i < maxNumRuns s ! i \<and>
                   maxNumRuns s ! i \<le> numRuns s ! i + 1) \<longrightarrow>
                  callbacks s' ! i = callbacks s ! i \<and> enabled s' ! i \<and>
                  delays s' ! i = delays s ! i \<and> maxNumRuns s' ! i = maxNumRuns s ! i \<and>
                  (\<forall>d. unat (now - prev_millis s ! i) + d < 2 ^ 32 \<longrightarrow>
                     is_due (now + of_nat d) s' i \<and>
                     (\<exists>s'' lg'. run prog (now + of_nat d) s' = Inr (s'', lg') \<and>
                        count_list (fired lg') i =
                          (if maxNumRuns s ! i = RUN_FOREVER \<or>
                              numRuns s ! i + 1 < maxNumRuns s ! i
                           then 1 else 0))))))"
proof -
  define p where "p = delays s ! i"
  define prev where "prev = prev_millis s ! i"
  define last where "last \<longleftrightarrow> maxNumRuns s ! i \<noteq> RUN_FOREVER \<and>
     numRuns s ! i < maxNumRuns s ! i \<and> maxNumRuns s ! i \<le> numRuns s ! i + 1"
  note ar = late_poll_arith [OF assms(7), of p now prev, unfolded p_def prev_def, OF assms(8)]
  have due: "is_due now s i" using ar(1) by (simp add: is_due_def)
  have once: "count_list (fired lg) i \<le> 1" if "run prog now s = Inr (s', lg)" for s' lg
    using run_fire_count(1) [OF assms(1) that] .
  have p1: "prev_millis (phase1 now s) ! i = prev_millis s ! i + delays s ! i"
    using due assms(4) by (simp add: phase1_prev_millis [OF assms(1,3)])
  have dec: "(decided now s i = DEFCALL_RUNONLY \<or> decided now s i = DEFCALL_RUNANDDEL) \<longleftrightarrow>
      (maxNumRuns s ! i = RUN_FOREVER \<or> numRuns s ! i < maxNumRuns s ! i)"
    using due assms(4,5) by (auto simp: decided_eq [OF assms(1,3)])
  have dec2: "decided now s i = DEFCALL_RUNANDDEL \<longleftrightarrow> last"
    using due assms(4,5) by (auto simp: decided_eq [OF assms(1,3)] last_def)
  have nr1: "numRuns (phase1 now s) ! i =
      (if maxNumRuns s ! i \<noteq> RUN_FOREVER \<and> numRuns s ! i < maxNumRuns s ! i
       then numRuns s ! i + 1 else numRuns s ! i)"
    using due assms(4,5) by (simp add: phase1_numRuns [OF assms(1,3)])
  have inert_case: "\<exists>s' lg. run prog now s = Inr (s', lg) \<and>
               count_list (fired lg) i =
                 (if maxNumRuns s ! i = RUN_FOREVER \<or> numRuns s ! i < maxNumRuns s ! i
                  then 1 else 0) \<and>
               prev_millis s' ! i = prev_millis s ! i + delays s ! i \<and>
               unat (now - prev_millis s' ! i) =
                 unat (now - prev_millis s ! i) - unat (delays s ! i) \<and>
               unat (delays s ! i) \<le> unat (now - prev_millis s' ! i) \<and>
               (last \<longrightarrow>
                  callbacks s' ! i = 0 \<and>
                  (\<forall>t s'' lg'. run prog t s' = Inr (s'', lg') \<longrightarrow> i \<notin> set (fired lg'))) \<and>
               (\<not> last \<longrightarrow>
                  callbacks s' ! i = callbacks s ! i \<and> enabled s' ! i \<and>
                  delays s' ! i = delays s ! i \<and> maxNumRuns s' ! i = maxNumRuns s ! i \<and>
                  (\<forall>d. unat (now - prev_millis s ! i) + d < 2 ^ 32 \<longrightarrow>
                     is_due (now + of_nat d) s' i \<and>
                     (\<exists>s'' lg'. run prog (now + of_nat d) s' = Inr (s'', lg') \<and>
                        count_list (fired lg') i =
                          (if maxNumRuns s ! i = RUN_FOREVER \<or>
                              numRuns s ! i + 1 < maxNumRuns s ! i
                           then 1 else 0))))"
    if inert: "inert prog"
  proof -
    from run_total [OF assms(1) inert_prog_ok [OF inert], of now]
    obtain s' lg where r: "run prog now s = Inr (s', lg)" by auto
    note sl = inert_run_slot [OF inert assms(1,2,3) r]
    from run_inv(1) [OF r assms(1)] have wf': "wf_timer s'" .
    have cnt: "count_list (fired lg) i =
                 (if maxNumRuns s ! i = RUN_FOREVER \<or> numRuns s ! i < maxNumRuns s ! i
                  then 1 else 0)"
      using run_fire_count(2) [OF assms(1) r assms(3) inert_never_deletes [OF inert]] dec
      by simp
    have prev': "prev_millis s' ! i = prev_millis s ! i + delays s ! i"
      using sl p1 by (cases "decided now s i = DEFCALL_RUNANDDEL") (simp_all add: slot_eq_iff)
    from ar(2,3) have el: "unat (now - prev_millis s' ! i) =
                 unat (now - prev_millis s ! i) - unat (delays s ! i)"
      and ge: "unat (delays s ! i) \<le> unat (now - prev_millis s' ! i)"
      by (simp_all only: prev')
    have freed: "callbacks s' ! i = 0 \<and>
        (\<forall>t s'' lg'. run prog t s' = Inr (s'', lg') \<longrightarrow> i \<notin> set (fired lg'))"
      if last
    proof -
      from that dec2 sl(2) have free: "callbacks s' ! i = 0" by simp
      have "i \<notin> set (fired lg')" if r': "run prog t s' = Inr (s'', lg')" for t s'' lg'
      proof -
        have "decided t s' i = DEFCALL_DONTRUN"
          using free by (simp add: decided_eq [OF wf' assms(3)])
        from run_fire_count(3) [OF wf' r' this] show ?thesis .
      qed
      with free show ?thesis by blast
    qed
    have kept: "callbacks s' ! i = callbacks s ! i \<and> enabled s' ! i \<and>
                  delays s' ! i = delays s ! i \<and> maxNumRuns s' ! i = maxNumRuns s ! i \<and>
                  (\<forall>d. unat (now - prev_millis s ! i) + d < 2 ^ 32 \<longrightarrow>
                     is_due (now + of_nat d) s' i \<and>
                     (\<exists>s'' lg'. run prog (now + of_nat d) s' = Inr (s'', lg') \<and>
                        count_list (fired lg') i =
                          (if maxNumRuns s ! i = RUN_FOREVER \<or>
                              numRuns s ! i + 1 < maxNumRuns s ! i
                           then 1 else 0)))"
      if nl: "\<not> last"
    proof -
      from nl dec2 sl(1) have same: "slot s' i = slot (phase1 now s) i" by simp
      then have cb: "callbacks s' ! i = callbacks s ! i" and en: "enabled s' ! i"
        and dl: "delays s' ! i = delays s ! i" and mx: "maxNumRuns s' ! i = maxNumRuns s ! i"
        and nr: "numRuns s' ! i = numRuns (phase1 now s) ! i"
        using assms(5) by (simp_all add: slot_eq_iff phase1_frame)
      have later: "is_due (now + of_nat d) s' i \<and>
                     (\<exists>s'' lg'. run prog (now + of_nat d) s' = Inr (s'', lg') \<and>
                        count_list (fired lg') i =
                          (if maxNumRuns s ! i = RUN_FOREVER \<or>
                              numRuns s ! i + 1 < maxNumRuns s ! i
                           then 1 else 0))"
        if d: "unat (now - prev_millis s ! i) + d < 2 ^ 32" for d
      proof -
        from ar(4) [OF d] ar(3)
        have "unat (delays s ! i) \<le> unat ((now + of_nat d) - prev_millis s' ! i)"
          by (simp only: prev')
        then have due': "is_due (now + of_nat d) s' i"
          by (simp add: is_due_def word_le_nat_alt dl)
        from run_total [OF wf' inert_prog_ok [OF inert], of "now + of_nat d"]
        obtain s'' lg' where r': "run prog (now + of_nat d) s' = Inr (s'', lg')" by auto
        have left: "(maxNumRuns s' ! i = RUN_FOREVER \<or> numRuns s' ! i < maxNumRuns s' ! i) \<longleftrightarrow>
            (maxNumRuns s ! i = RUN_FOREVER \<or> numRuns s ! i + 1 < maxNumRuns s ! i)"
          using nl by (auto simp: mx nr nr1 last_def)
        have "(decided (now + of_nat d) s' i = DEFCALL_RUNONLY \<or>
               decided (now + of_nat d) s' i = DEFCALL_RUNANDDEL) \<longleftrightarrow>
              (maxNumRuns s' ! i = RUN_FOREVER \<or> numRuns s' ! i < maxNumRuns s' ! i)"
          using due' en cb assms(4) by (auto simp: decided_eq [OF wf' assms(3)])
        with left run_fire_count(2) [OF wf' r' assms(3) inert_never_deletes [OF inert]]
        have "count_list (fired lg') i =
                          (if maxNumRuns s ! i = RUN_FOREVER \<or>
                              numRuns s ! i + 1 < maxNumRuns s ! i
                           then 1 else 0)"
          by simp
        with due' r' show ?thesis by blast
      qed
      with cb en dl mx show ?thesis by blast
    qed
    from r cnt prev' el ge freed kept show ?thesis by blast
  qed
  from once p1 inert_case show ?thesis unfolding last_def by blast
qed

theorem no_catch_up_burst_witness:
  "wf_timer two_timers \<and> count_inv two_timers \<and> (0::nat) < 10 \<and> callbacks two_timers ! 0 \<noteq> 0 \<and>
   enabled two_timers ! 0 \<and> 0 < unat (delays two_timers ! 0) \<and> (1::nat) < 2 \<and>
   2 * unat (delays two_timers ! 0) \<le> unat (25 - prev_millis two_timers ! 0) \<and>
   inert no_calls \<and> prev_millis (phase1 25 two_timers) ! 0 = 10 \<and>
   count_list (fired (snd (projr (run no_calls 25 two_timers)))) 0 = 1 \<and>
   prev_millis (fst (projr (run no_calls 25 two_timers))) ! 0 = 10 \<and>
   callbacks (fst (projr (run no_calls 25 two_timers))) ! 0 = 1 \<and>
   is_due 26 (fst (projr (run no_calls 25 two_timers))) 0 \<and>
   count_list (fired (snd (projr (run no_calls 26 (fst (projr (run no_calls 25 two_timers))))))) 0 = 1"
proof -
  have h: "callbacks two_timers ! 0 \<noteq> 0" "enabled two_timers ! 0"
    "0 < unat (delays two_timers ! 0)"
    "2 * unat (delays two_timers ! 0) \<le> unat (25 - prev_millis two_timers ! 0)"
    and v: "delays two_timers ! 0 = 10" "prev_millis two_timers ! 0 = 0"
      "maxNumRuns two_timers ! 0 = 0" "callbacks two_timers ! 0 = 1"
    unfolding two_timers_eq by simp_all
  have lt: "(0::nat) < 10" and k: "(1::nat) < 2" by simp_all
  have nl: "\<not> (maxNumRuns two_timers ! 0 \<noteq> RUN_FOREVER \<and>
     numRuns two_timers ! 0 < maxNumRuns two_timers ! 0 \<and>
     maxNumRuns two_timers ! 0 \<le> numRuns two_timers ! 0 + 1)"
    by (simp add: v)
  from no_catch_up_burst [OF wf_two_timers count_inv_two_timers lt h(1,2,3) k h(4), of no_calls]
    inert_no_calls nl
  obtain s' lg where r: "run no_calls 25 two_timers = Inr (s', lg)"
    and c: "count_list (fired lg) 0 =
        (if maxNumRuns two_timers ! 0 = RUN_FOREVER \<or>
            numRuns two_timers ! 0 < maxNumRuns two_timers ! 0 then 1 else 0)"
    and pm: "prev_millis s' ! 0 = prev_millis two_timers ! 0 + delays two_timers ! 0"
    and cb: "callbacks s' ! 0 = callbacks two_timers ! 0"
    and later: "\<forall>d. unat (25 - prev_millis two_timers ! 0) + d < 2 ^ 32 \<longrightarrow>
        is_due (25 + of_nat d) s' 0 \<and>
        (\<exists>s'' lg'. run no_calls (25 + of_nat d) s' = Inr (s'', lg') \<and>
           count_list (fired lg') 0 =
             (if maxNumRuns two_timers ! 0 = RUN_FOREVER \<or>
                 numRuns two_timers ! 0 + 1 < maxNumRuns two_timers ! 0 then 1 else 0))"
    and p1: "prev_millis (phase1 25 two_timers) ! 0 =
        prev_millis two_timers ! 0 + delays two_timers ! 0"
    by blast
  have "unat (25 - prev_millis two_timers ! 0) + 1 < 2 ^ 32" by (simp add: v)
  with later have "is_due (25 + of_nat 1) s' 0 \<and>
        (\<exists>s'' lg'. run no_calls (25 + of_nat 1) s' = Inr (s'', lg') \<and>
           count_list (fired lg') 0 =
             (if maxNumRuns two_timers ! 0 = RUN_FOREVER \<or>
                 numRuns two_timers ! 0 + 1 < maxNumRuns two_timers ! 0 then 1 else 0))"
    by blast
  then obtain s'' lg' where due: "is_due 26 s' 0"
    and r': "run no_calls 26 s' = Inr (s'', lg')" and c': "count_list (fired lg') 0 = 1"
    by (auto simp: v)
  from r have pr: "projr (run no_calls 25 two_timers) = (s', lg)" by simp
  from r' have pr': "projr (run no_calls 26 s') = (s'', lg')" by simp
  show ?thesis
    unfolding pr fst_conv snd_conv pr'
    using h lt k wf_two_timers count_inv_two_timers inert_no_calls c pm p1 due cb c'
    by (simp add: v)
qed

subsection \<open>Disabled timers\<close>

text \<open>
  C8. Take a slot in use that is disabled when \<open>run()\<close> is called. Whatever the
  callbacks do, its callback is not invoked in that \<open>run()\<close>; the first loop advances
  its baseline by one period exactly when the test of line 124 holds, and leaves it alone
  otherwise; and when the callbacks leave the timer object alone this is the baseline
  \<open>run()\<close> returns with, the slot being still in use and disabled. After \<open>enable\<close>, a
  \<open>run()\<close> at a tick where the test of line 124 fails does not invoke the callback;
  where it holds, and the slot has no run limit or has runs left, and no callback deletes
  the timer, it does.
\<close>

theorem disabled_slot:
  assumes "wf_timer s" and "count_inv s" and "i < 10" and "callbacks s ! i \<noteq> 0"
    and "\<not> enabled s ! i"
  shows "(\<forall>s' lg. run prog now s = Inr (s', lg) \<longrightarrow> i \<notin> set (fired lg)) \<and>
         prev_millis (phase1 now s) ! i =
           (if is_due now s i then prev_millis s ! i + delays s ! i else prev_millis s ! i) \<and>
         (inert prog \<longrightarrow>
            (\<exists>s' lg. run prog now s = Inr (s', lg) \<and>
               prev_millis s' ! i =
                 (if is_due now s i then prev_millis s ! i + delays s ! i
                  else prev_millis s ! i) \<and>
               callbacks s' ! i = callbacks s ! i \<and> \<not> enabled s' ! i \<and>
               delays s' ! i = delays s ! i)) \<and>
         (\<forall>s1 s2 lg. enable (int i) s = Inr s1 \<and> \<not> is_due now s i \<and>
            run prog now s1 = Inr (s2, lg) \<longrightarrow> i \<notin> set (fired lg)) \<and>
         (\<forall>s1 s2 lg. enable (int i) s = Inr s1 \<and> is_due now s i \<and>
            (maxNumRuns s ! i = RUN_FOREVER \<or> numRuns s ! i < maxNumRuns s ! i) \<and>
            never_deletes prog i \<and> run prog now s1 = Inr (s2, lg) \<longrightarrow> i \<in> set (fired lg))"
proof -
  have dec: "decided now s i = DEFCALL_DONTRUN"
    using assms(5) by (simp add: decided_eq [OF assms(1,3)])
  have quiet: "i \<notin> set (fired lg)" if "run prog now s = Inr (s', lg)" for s' lg
    using run_fire_count(3) [OF assms(1) that dec] .
  have p1: "prev_millis (phase1 now s) ! i =
           (if is_due now s i then prev_millis s ! i + delays s ! i else prev_millis s ! i)"
    using assms(4) by (simp add: phase1_prev_millis [OF assms(1,3)])
  have inert_case: "\<exists>s' lg. run prog now s = Inr (s', lg) \<and>
               prev_millis s' ! i =
                 (if is_due now s i then prev_millis s ! i + delays s ! i
                  else prev_millis s ! i) \<and>
               callbacks s' ! i = callbacks s ! i \<and> \<not> enabled s' ! i \<and>
               delays s' ! i = delays s ! i"
    if inert: "inert prog"
  proof -
    from run_total [OF assms(1) inert_prog_ok [OF inert], of now]
    obtain s' lg where r: "run prog now s = Inr (s', lg)" by auto
    from inert_run_slot(1) [OF inert assms(1,2,3) r] dec
    have "slot s' i = slot (phase1 now s) i" by simp
    with p1 assms(5) have "prev_millis s' ! i =
                 (if is_due now s i then prev_millis s ! i + delays s ! i
                  else prev_millis s ! i) \<and>
               callbacks s' ! i = callbacks s ! i \<and> \<not> enabled s' ! i \<and>
               delays s' ! i = delays s ! i"
      by (simp add: slot_eq_iff phase1_frame)
    with r show ?thesis by blast
  qed
  have early: "i \<notin> set (fired lg)"
    if "enable (int i) s = Inr s1 \<and> \<not> is_due now s i \<and> run prog now s1 = Inr (s2, lg)"
    for s1 s2 lg
  proof -
    from that have e: "enable (int i) s = Inr s1" and nd: "\<not> is_due now s i"
      and r: "run prog now s1 = Inr (s2, lg)"
      by simp_all
    note k = enable_keeps [OF e assms(1,3)]
    have "decided now s1 i = DEFCALL_DONTRUN"
      using nd by (simp add: decided_eq [OF k(1) assms(3)] k(4))
    from run_fire_count(3) [OF k(1) r this] show ?thesis .
  qed
  have late: "i \<in> set (fired lg)"
    if "enable (int i) s = Inr s1 \<and> is_due now s i \<and>
        (maxNumRuns s ! i = RUN_FOREVER \<or> numRuns s ! i < maxNumRuns s ! i) \<and>
        never_deletes prog i \<and> run prog now s1 = Inr (s2, lg)"
    for s1 s2 lg
  proof -
    from that have e: "enable (int i) s = Inr s1" and d: "is_due now s i"
      and left: "maxNumRuns s ! i = RUN_FOREVER \<or> numRuns s ! i < maxNumRuns s ! i"
      and nd: "never_deletes prog i" and r: "run prog now s1 = Inr (s2, lg)"
      by simp_all
    note k = enable_keeps [OF e assms(1,3)]
    have "decided now s1 i = DEFCALL_RUNONLY \<or> decided now s1 i = DEFCALL_RUNANDDEL"
      using d left assms(4) k(2)
      by (auto simp: decided_eq [OF k(1) assms(3)] k(3,4,5,6))
    from run_fires [OF r assms(3) nd this] show ?thesis
      by (force simp: fired_def)
  qed
  from quiet p1 inert_case early late show ?thesis by blast
qed

theorem disabled_slot_witness:
  "wf_timer one_disabled \<and> count_inv one_disabled \<and> (1::nat) < 10 \<and>
   callbacks one_disabled ! 1 \<noteq> 0 \<and> \<not> enabled one_disabled ! 1 \<and> inert no_calls \<and>
   is_due 12 one_disabled 1 \<and>
   fired (snd (projr (run no_calls 12 one_disabled))) = [0] \<and>
   prev_millis (fst (projr (run no_calls 12 one_disabled))) ! 1 = 10 \<and>
   \<not> is_due 5 one_disabled 1 \<and>
   1 \<notin> set (fired (snd (projr (run no_calls 5 (projr (enable 1 one_disabled))))))"
proof -
  have h: "callbacks one_disabled ! 1 \<noteq> 0" "\<not> enabled one_disabled ! 1"
    and v: "delays one_disabled ! 1 = 10" "prev_millis one_disabled ! 1 = 0"
    and due: "is_due 12 one_disabled 1" and nd: "\<not> is_due 5 one_disabled 1"
    unfolding one_disabled_eq by (simp_all add: is_due_def)
  have lt: "(1::nat) < 10" by simp
  note t12 = disabled_slot [OF wf_one_disabled count_inv_one_disabled lt h, of no_calls 12]
  note t5 = disabled_slot [OF wf_one_disabled count_inv_one_disabled lt h, of no_calls 5]
  from t12 inert_no_calls due
  obtain s' lg where r: "run no_calls 12 one_disabled = Inr (s', lg)"
    and pm: "prev_millis s' ! 1 = prev_millis one_disabled ! 1 + delays one_disabled ! 1"
    by auto
  from pm have pm': "prev_millis s' ! 1 = 10"
    unfolding one_disabled_eq by simp
  from r have pr: "projr (run no_calls 12 one_disabled) = (s', lg)" by simp
  from r run_one_disabled_12 have lg: "fired lg = [0]" by (auto simp: fired_def)
  obtain s1 where e: "enable (int 1) one_disabled = Inr s1"
    by (simp add: enable_def)
  have "wf_timer s1" using enable_keeps(1) [OF e wf_one_disabled lt] .
  from run_total [OF this inert_prog_ok [OF inert_no_calls], of 5]
  obtain s2 lg2 where r2: "run no_calls 5 s1 = Inr (s2, lg2)" by auto
  from t5 e nd r2 have "1 \<notin> set (fired lg2)" by blast
  moreover from e r2 have "snd (projr (run no_calls 5 (projr (enable 1 one_disabled)))) = lg2"
    by simp
  ultimately show ?thesis
    unfolding pr using h lt wf_one_disabled count_inv_one_disabled inert_no_calls due nd lg pm'
    by simp
qed

subsection \<open>Run limits\<close>

text \<open>
  C10. On an object with a free slot, \<open>setTimer\<close> with a callback that is not null and
  a negative run limit succeeds. When the callbacks leave the timer object alone, every
  sequence of \<open>run()\<close> calls after it returns without ever invoking the slot's callback,
  and leaves the slot in use, with its callback, its run limit and a run count of \<open>0\<close>.
\<close>

theorem negative_limit_never_fires:
  assumes "wf_timer s" and "count_inv s" and "free_runs_zero s" and "inert prog"
    and "n < 0" and "f \<noteq> 0" and "k < 10" and "callbacks s ! k = 0"
  shows "\<exists>s1 r. setTimer now d f n s = (s1, r) \<and> 0 \<le> r \<and> r < MAX_TIMERS \<and>
           (\<forall>ts. \<exists>s2 lg. runs prog ts (s1, []) = Inr (s2, lg) \<and>
              nat r \<notin> set (fired lg) \<and> callbacks s2 ! nat r = f \<and>
              nat r \<in> set (in_use s2) \<and> maxNumRuns s2 ! nat r = n \<and>
              numRuns s2 ! nat r = 0)"
proof -
  obtain s1 r where st: "setTimer now d f n s = (s1, r)" by (cases "setTimer now d f n s")
  from numTimers_room [OF assms(2,7,8)] have "0 \<le> findFirstFreeSlot s"
    using findFirstFreeSlot_some assms(7,8) by simp
  with assms(6) st have nn: "0 \<le> r" by (auto simp: setTimer_def Let_def)
  note live = setTimer_live [OF assms(1,2,3) st nn]
  have "\<exists>s2 lg. runs prog ts (s1, []) = Inr (s2, lg) \<and>
              nat r \<notin> set (fired lg) \<and> callbacks s2 ! nat r = f \<and>
              nat r \<in> set (in_use s2) \<and> maxNumRuns s2 ! nat r = n \<and>
              numRuns s2 ! nat r = 0" for ts
  proof -
    from negative_limit_runs [OF assms(4) live(3) assms(6,5) live(1,2,5,8,9), of "[]" ts]
    obtain s2 lg where "runs prog ts (s1, []) = Inr (s2, lg)" and "nat r \<notin> set (fired lg)"
      and "callbacks s2 ! nat r = f" and "maxNumRuns s2 ! nat r = n"
      and "numRuns s2 ! nat r = 0"
      by (auto simp: fired_def)
    moreover from this(3) assms(6) live(3) have "nat r \<in> set (in_use s2)"
      by (simp add: in_use_def)
    ultimately show ?thesis by blast
  qed
  with st nn live(3) show ?thesis by auto
qed

theorem negative_limit_never_fires_witness:
  "wf_timer raw0 \<and> count_inv raw0 \<and> free_runs_zero raw0 \<and> inert no_calls \<and>
   (-1::int) < 0 \<and> (7::nat) \<noteq> 0 \<and> (0::nat) < 10 \<and> callbacks raw0 ! 0 = 0 \<and>
   snd (setTimer 0 10 7 (-1) raw0) = 0 \<and>
   \<not> isl (runs no_calls [10, 20] (fst (setTimer 0 10 7 (-1) raw0), [])) \<and>
   0 \<notin> set (fired (snd (projr (runs no_calls [10, 20] (fst (setTimer 0 10 7 (-1) raw0), [])))))"
proof -
  have h: "(-1::int) < 0" "(7::nat) \<noteq> 0" "(0::nat) < 10" "callbacks raw0 ! 0 = 0"
    by (simp_all add: raw0_def)
  from negative_limit_never_fires [OF wf_raw0 count_inv_raw0 free_runs_zero_raw0 inert_no_calls h,
      of 0 10]
  obtain s1 r where st: "setTimer 0 10 7 (-1) raw0 = (s1, r)"
    and all: "\<forall>ts. \<exists>s2 lg. runs no_calls ts (s1, []) = Inr (s2, lg) \<and> nat r \<notin> set (fired lg)"
    by blast
  from st setTimer_neg_raw0 have r: "r = 0" by simp
  from all obtain s2 lg where "runs no_calls [10, 20] (s1, []) = Inr (s2, lg)"
    and "nat r \<notin> set (fired lg)"
    by blast
  with st r have "\<not> isl (runs no_calls [10, 20] (fst (setTimer 0 10 7 (-1) raw0), []))"
    and "0 \<notin> set (fired (snd (projr (runs no_calls [10, 20] (fst (setTimer 0 10 7 (-1) raw0), [])))))"
    by simp_all
  with h wf_raw0 count_inv_raw0 free_runs_zero_raw0 inert_no_calls setTimer_neg_raw0
  show ?thesis by simp
qed

text \<open>
  C2, as the claim states it, fails. A timer with period 10 and a run limit of 2 is
  registered at tick 0; a single \<open>run()\<close> at tick 100, more than two periods later,
  invokes its callback once, and the slot is still in use.
\<close>

theorem late_poll_fires_once_counterexample:
  "snd (setTimer 0 10 7 2 raw0) = 0 \<and>
   2 * unat (10 :: 32 word) < unat ((100 :: 32 word) - 0) \<and>
   count_list (fired (snd (projr (runs no_calls [100] (fst (setTimer 0 10 7 2 raw0), []))))) 0 = 1 \<and>
   callbacks (fst (projr (runs no_calls [100] (fst (setTimer 0 10 7 2 raw0), [])))) ! 0 \<noteq> 0"
  by (simp add: run_twice_100 fired_def) (simp add: setTimer_twice_raw0)

text \<open>
  C2, amended. A timer is registered with a run limit \<open>n > 0\<close> on an object whose
  callbacks call no operation of the timer set. Over any sequence of \<open>run()\<close> calls, each
  of which returns, its callback is invoked once by each call that finds it due (its
  baseline being the tick of the registration at first, and one period later after each
  such call) until it has been invoked \<open>n\<close> times: the count is the smaller of \<open>n\<close> and
  the number of calls that find it due, and so at most the number of calls; the slot is
  free exactly when the count has reached \<open>n\<close>; the count is \<open>n\<close> whenever \<open>n\<close> or more
  of the calls are made \<open>n\<close> periods or more after the registration; and one more
  \<open>run()\<close>, at any tick, returns and invokes the callback at most once.
\<close>

theorem bounded_timer_fire_count:
  assumes "wf_timer s" and "count_inv s" and "free_runs_zero s" and "inert prog"
    and "0 < n" and "setTimer t0 p f n s = (s1, r)" and "0 \<le> r"
  shows "\<exists>s2 lg. runs prog ts (s1, []) = Inr (s2, lg) \<and>
           count_list (fired lg) (nat r) = min (nat n) (due_polls p t0 ts) \<and>
           count_list (fired lg) (nat r) \<le> length ts \<and>
           (int (count_list (fired lg) (nat r)) = n \<longleftrightarrow> callbacks s2 ! nat r = 0) \<and>
           (nat n \<le> late_polls (nat n) p t0 ts \<longrightarrow> int (count_list (fired lg) (nat r)) = n) \<and>
           (\<forall>t. \<exists>s3 l. run prog t s2 = Inr (s3, l) \<and>
              runs prog (ts @ [t]) (s1, []) = Inr (s3, lg @ l) \<and>
              count_list (fired l) (nat r) \<le> 1)"
proof -
  note live = setTimer_live [OF assms(1,2,3,6,7)]
  from assms(5) have n: "n = int (nat n)" and pos: "0 < nat n" by simp_all
  have mx: "maxNumRuns s1 ! nat r = int (nat n)" using live(8) n by simp
  have nr: "numRuns s1 ! nat r = int 0" using live(9) by simp
  have pm: "prev_millis s1 ! nat r = t0 + of_nat 0 * p" using live(10) by simp
  have c0: "count_list (fired []) (nat r) = 0" by (simp add: fired_def)
  from bounded_slot_due_polls [OF assms(4) live(3,4,1,2,5,6,7) mx nr pos c0, of ts]
  obtain s2 lg where rs: "runs prog ts (s1, []) = Inr (s2, lg)"
    and cnt: "count_list (fired lg) (nat r) = min (nat n) (due_polls p t0 ts)"
    and free: "count_list (fired lg) (nat r) = nat n \<longleftrightarrow> callbacks s2 ! nat r = 0"
    using live(10) by auto
  from bounded_slot_runs [OF assms(4) live(3,4,1,2,5,6,7) mx nr pos pm c0, of ts] rs
  have late: "nat n \<le> late_polls (nat n) p t0 ts \<longrightarrow> count_list (fired lg) (nat r) = nat n"
    by auto
  have len: "count_list (fired lg) (nat r) \<le> length ts"
    using cnt due_polls_le [of p t0 ts] by simp
  have free': "int (count_list (fired lg) (nat r)) = n \<longleftrightarrow> callbacks s2 ! nat r = 0"
    using free assms(5) by auto
  have late': "nat n \<le> late_polls (nat n) p t0 ts \<longrightarrow> int (count_list (fired lg) (nat r)) = n"
    using late assms(5) by auto
  have more: "\<forall>t. \<exists>s3 l. run prog t s2 = Inr (s3, l) \<and>
      runs prog (ts @ [t]) (s1, []) = Inr (s3, lg @ l) \<and> count_list (fired l) (nat r) \<le> 1"
    using runs_extend [OF assms(4) live(1) rs] by blast
  show ?thesis
    by (intro exI [of _ s2] exI [of _ lg] conjI) (fact rs cnt len free' late' more)+
qed

theorem bounded_timer_fire_count_witness:
  "wf_timer raw0 \<and> count_inv raw0 \<and> free_runs_zero raw0 \<and> inert no_calls \<and> (0::int) < 2 \<and>
   snd (setTimer 0 10 7 2 raw0) = 0 \<and>
   due_polls 10 0 [10, 21] = 2 \<and> late_polls (nat 2) 10 0 [10, 21] = 1 \<and>
   \<not> isl (runs no_calls [10, 21] (fst (setTimer 0 10 7 2 raw0), [])) \<and>
   count_list (fired (snd (projr (runs no_calls [10, 21] (fst (setTimer 0 10 7 2 raw0), []))))) 0 = 2 \<and>
   callbacks (fst (projr (runs no_calls [10, 21] (fst (setTimer 0 10 7 2 raw0), [])))) ! 0 = 0 \<and>
   nat 2 \<le> late_polls (nat 2) 10 0 [100, 100] \<and>
   \<not> isl (runs no_calls [100, 100] (fst (setTimer 0 10 7 2 raw0), [])) \<and>
   count_list (fired (snd (projr (runs no_calls [100, 100] (fst (setTimer 0 10 7 2 raw0), []))))) 0 = 2 \<and>
   callbacks (fst (projr (runs no_calls [100, 100] (fst (setTimer 0 10 7 2 raw0), [])))) ! 0 = 0"
proof -
  have st: "setTimer 0 10 7 2 raw0 = (fst (setTimer 0 10 7 2 raw0), 0)"
    by (simp add: setTimer_twice_raw0)
  have pos: "(0::int) < 2" and nn: "(0::int) \<le> 0" by simp_all
  have due: "due_polls 10 0 [10, 21] = 2" by (rule due_polls_on_schedule)
  have few: "late_polls (nat 2) 10 0 [10, 21] = 1" by (simp add: late_polls_def)
  have late: "nat 2 \<le> late_polls (nat 2) 10 0 [100, 100]"
    by (simp add: late_polls_def)
  from bounded_timer_fire_count [OF wf_raw0 count_inv_raw0 free_runs_zero_raw0 inert_no_calls
      pos st nn, of "[10, 21]"]
  obtain s2 lg where r: "runs no_calls [10, 21] (fst (setTimer 0 10 7 2 raw0), []) = Inr (s2, lg)"
    and c: "count_list (fired lg) (nat 0) = min (nat 2) (due_polls 10 0 [10, 21])"
    and f: "int (count_list (fired lg) (nat 0)) = 2 \<longleftrightarrow> callbacks s2 ! nat 0 = 0"
    by (elim exE conjE) (rule that, assumption+)
  from c have c2: "count_list (fired lg) 0 = 2" unfolding due by simp
  with f have "callbacks s2 ! 0 = 0" by simp
  with r c2 have res: "\<not> isl (runs no_calls [10, 21] (fst (setTimer 0 10 7 2 raw0), []))"
    "count_list (fired (snd (projr (runs no_calls [10, 21]
          (fst (setTimer 0 10 7 2 raw0), []))))) 0 = 2"
    "callbacks (fst (projr (runs no_calls [10, 21]
          (fst (setTimer 0 10 7 2 raw0), [])))) ! 0 = 0"
    by simp_all
  from bounded_timer_fire_count [OF wf_raw0 count_inv_raw0 free_runs_zero_raw0 inert_no_calls
      pos st nn, of "[100, 100]"]
  obtain s3 lg3 where r3: "runs no_calls [100, 100] (fst (setTimer 0 10 7 2 raw0), []) = Inr (s3, lg3)"
    and l3: "nat 2 \<le> late_polls (nat 2) 10 0 [100, 100] \<longrightarrow> int (count_list (fired lg3) (nat 0)) = 2"
    and f3: "int (count_list (fired lg3) (nat 0)) = 2 \<longleftrightarrow> callbacks s3 ! nat 0 = 0"
    by (elim exE conjE) (rule that, assumption+)
  from l3 late have c3: "count_list (fired lg3) 0 = 2" by simp
  with f3 have "callbacks s3 ! 0 = 0" by simp
  with r3 c3 have res3: "\<not> isl (runs no_calls [100, 100] (fst (setTimer 0 10 7 2 raw0), []))"
    "count_list (fired (snd (projr (runs no_calls [100, 100]
          (fst (setTimer 0 10 7 2 raw0), []))))) 0 = 2"
    "callbacks (fst (projr (runs no_calls [100, 100]
          (fst (setTimer 0 10 7 2 raw0), [])))) ! 0 = 0"
    by simp_all
  have sn: "snd (setTimer 0 10 7 2 raw0) = 0" by (simp add: setTimer_twice_raw0)
  show ?thesis
    by (intro conjI) (fact wf_raw0 count_inv_raw0 free_runs_zero_raw0 inert_no_calls pos sn
        due few late res res3)+
qed

end
